theory Spec2Isabelle
  imports Main "HOL-Library.Word" "HOL-Library.Multiset"
begin

section \<open>Machine types and constants of \<open>storage/page.go\<close>\<close>

type_synonym byte = "8 word"
type_synonym u16 = "16 word"
type_synonym u32 = "32 word"
type_synonym u64 = "64 word"

definition InternalNode :: byte where
  "InternalNode = 0"

definition LeafNode :: byte where
  "LeafNode = 1"

definition pageSize :: nat where
  "pageSize = 4096"

definition internalNodeHeaderSize :: nat where
  "internalNodeHeaderSize = 1 + 8 + 8 + 8 + 4 + 2"

definition leafNodeHeaderSize :: nat where
  "leafNodeHeaderSize = 1 + 8 + 8 + 1 + 1 + 8 + 8 + 4 + 2"

definition offsetElemSize :: nat where
  "offsetElemSize = 2"

definition internalNodeCellSize :: nat where
  "internalNodeCellSize = 4 + 8"

definition maxValueSize :: nat where
  "maxValueSize = 400"

definition leafNodeCellSize :: nat where
  "leafNodeCellSize = 4 + 1 + 4 + maxValueSize"

definition maxInternalNodeCells :: nat where
  "maxInternalNodeCells =
     (pageSize - internalNodeHeaderSize) div (offsetElemSize + internalNodeCellSize)"

definition maxLeafNodeCells :: nat where
  "maxLeafNodeCells =
     (pageSize - leafNodeHeaderSize) div (offsetElemSize + leafNodeCellSize)"

text \<open>
  Go's \<open>error\<close> values and its panics, as one datatype. \<open>RuntimePanic\<close> stands for the
  run-time panics of Go (index out of range, slice bounds out of range, nil pointer
  dereference); \<open>PageSizePanic\<close> is the explicit \<open>panic\<close> of the two encoders, with the
  length that was produced.
\<close>

datatype error =
    ErrRowTooLarge
  | ErrLRUCacheFull
  | ErrRecordNotFound u32
  | ErrDecodeType byte byte
  | ErrEOF
  | ErrUnexpectedEOF
  | ErrIO
  | RuntimePanic
  | PageSizePanic nat

definition checkRowSizeLimit :: "byte list \<Rightarrow> error option" where
  "checkRowSizeLimit val = (if length val > maxValueSize then Some ErrRowTooLarge else None)"

section \<open>Nodes\<close>

text \<open>
  The structs of the source as records; \<open>internalNode\<close> and \<open>leafNode\<close> embed \<open>node\<close>.
  The cell arrays hold pointers, so an element is \<open>None\<close> for Go's \<open>nil\<close> (which
  \<open>decode\<close> leaves behind in a slot that no offset names). The field \<open>pg\<close> of
  \<open>leafNodeCell\<close> is never read or written in \<open>page.go\<close> and is left out.
\<close>

record internalNodeCell =
  ic_key :: u32
  ic_fileOffset :: u64

record leafNodeCell =
  lc_key :: u32
  lc_valueSize :: u32
  lc_valueBytes :: "byte list"
  lc_deleted :: bool

record node =
  fileOffset :: u64
  offsets :: "u16 list"
  freeSize :: u16
  dirty :: bool
  lastLSN :: u64

record internalNode = node +
  icells :: "internalNodeCell option list"
  rightOffset :: u64

record leafNode = node +
  lcells :: "leafNodeCell option list"
  hasLSib :: bool
  hasRSib :: bool
  lSibFileOffset :: u64
  rSibFileOffset :: u64

definition markDirty :: "u64 \<Rightarrow> ('a node_scheme) \<Rightarrow> 'a node_scheme" where
  "markDirty lsn n = n\<lparr>lastLSN := lsn, dirty := True\<rparr>"

definition markClean :: "('a node_scheme) \<Rightarrow> 'a node_scheme" where
  "markClean n = n\<lparr>dirty := False\<rparr>"

definition isDirty :: "('a node_scheme) \<Rightarrow> bool" where
  "isDirty n = dirty n"

text \<open>Reading \<open>cells[i]\<close> through the pointer: out of range and \<open>nil\<close> both panic.\<close>

definition cell_at :: "'c option list \<Rightarrow> nat \<Rightarrow> error + 'c" where
  "cell_at cs i =
     (if i < length cs then (case cs ! i of Some c \<Rightarrow> Inr c | None \<Rightarrow> Inl RuntimePanic)
      else Inl RuntimePanic)"

definition internalNode_cellKey :: "internalNode \<Rightarrow> u16 \<Rightarrow> error + u32" where
  "internalNode_cellKey n offset =
     (case cell_at (icells n) (unat offset) of Inl e \<Rightarrow> Inl e | Inr c \<Rightarrow> Inr (ic_key c))"

definition leafNode_cellKey :: "leafNode \<Rightarrow> u16 \<Rightarrow> error + u32" where
  "leafNode_cellKey n offset =
     (case cell_at (lcells n) (unat offset) of Inl e \<Rightarrow> Inl e | Inr c \<Rightarrow> Inr (lc_key c))"

section \<open>Search\<close>

text \<open>
  The loop of \<open>findCellOffsetByKey\<close>. The two methods of the source have the same body
  and differ only in the \<open>cellKey\<close> they call, which is the parameter \<open>ck\<close> here.
  \<open>low\<close>, \<open>high\<close> and \<open>mid\<close> are Go \<open>int\<close>s.
\<close>

function find_loop ::
  "(u16 \<Rightarrow> error + u32) \<Rightarrow> u16 list \<Rightarrow> u32 \<Rightarrow> int \<Rightarrow> int \<Rightarrow> error + (int \<times> bool)" where
  "find_loop ck offs k low high =
     (if low \<le> high then
        (let mid = low + (high - low) div 2 in
         if mid < 0 \<or> int (length offs) \<le> mid then Inl RuntimePanic
         else (case ck (offs ! nat mid) of
                 Inl e \<Rightarrow> Inl e
               | Inr midVal \<Rightarrow>
                   if midVal = k then Inr (mid, True)
                   else if midVal < k then find_loop ck offs k (mid + 1) high
                   else find_loop ck offs k low (mid - 1)))
      else Inr (low, False))"
  by pat_completeness auto
termination
  by (relation "measure (\<lambda>(ck, offs, k, low, high). nat (high - low + 1))") auto

definition internalNode_findCellOffsetByKey :: "internalNode \<Rightarrow> u32 \<Rightarrow> error + (int \<times> bool)" where
  "internalNode_findCellOffsetByKey n k =
     find_loop (internalNode_cellKey n) (offsets n) k 0 (int (length (offsets n)) - 1)"

definition leafNode_findCellOffsetByKey :: "leafNode \<Rightarrow> u32 \<Rightarrow> error + (int \<times> bool)" where
  "leafNode_findCellOffsetByKey n k =
     find_loop (leafNode_cellKey n) (offsets n) k 0 (int (length (offsets n)) - 1)"

text \<open>
  The slot view of a node: every offset names a cell that is there, and the cells read in
  slot order.
\<close>

definition slots_ok :: "'c option list \<Rightarrow> u16 list \<Rightarrow> bool" where
  "slots_ok cs offs = list_all (\<lambda>off. unat off < length cs \<and> cs ! unat off \<noteq> None) offs"

definition slot_cells :: "'c option list \<Rightarrow> u16 list \<Rightarrow> 'c list" where
  "slot_cells cs offs = map (\<lambda>off. the (cs ! unat off)) offs"

definition internal_slot_keys :: "internalNode \<Rightarrow> u32 list" where
  "internal_slot_keys n = map ic_key (slot_cells (icells n) (offsets n))"

definition leaf_slot_keys :: "leafNode \<Rightarrow> u32 list" where
  "leaf_slot_keys n = map lc_key (slot_cells (lcells n) (offsets n))"

section \<open>Node operations\<close>

definition internalNode_setRightMostKey :: "internalNode \<Rightarrow> u64 \<Rightarrow> internalNode" where
  "internalNode_setRightMostKey n fo = n\<lparr>rightOffset := fo\<rparr>"

text \<open>\<open>appendCell\<close> always returns a \<open>nil\<close> error, so the model returns the node alone.\<close>

definition internalNode_appendCell :: "internalNode \<Rightarrow> u32 \<Rightarrow> u64 \<Rightarrow> internalNode" where
  "internalNode_appendCell n k fo =
     n\<lparr>offsets := offsets n @ [of_nat (length (offsets n))],
       icells := icells n @ [Some \<lparr>ic_key = k, ic_fileOffset = fo\<rparr>]\<rparr>"

definition leafNode_appendCell :: "leafNode \<Rightarrow> u32 \<Rightarrow> byte list \<Rightarrow> leafNode" where
  "leafNode_appendCell n k val =
     n\<lparr>offsets := offsets n @ [of_nat (length (offsets n))],
       lcells := lcells n @
         [Some \<lparr>lc_key = k, lc_valueSize = of_nat (length val), lc_valueBytes = val,
                 lc_deleted = False\<rparr>]\<rparr>"

text \<open>
  \<open>append(a[:offset+1], a[offset:]...)\<close>: the slice expressions panic when \<open>offset\<close> is
  beyond the length, and the copy inside \<open>append\<close> is a \<open>memmove\<close>, so the result is the
  prefix followed by the old tail whether or not the backing array is reused. \<open>offset + 1\<close>
  is \<open>uint32\<close> arithmetic.
\<close>

definition open_slot :: "u16 list \<Rightarrow> u32 \<Rightarrow> u16 list" where
  "open_slot offs offset = take (unat (offset + 1)) offs @ drop (unat offset) offs"

text \<open>
  The tuple assignment of \<open>internalNode.insertCell\<close> reads both \<open>fileOffset\<close> fields
  first and then writes them left to right.
\<close>

definition swap_fileOffsets ::
  "internalNodeCell option list \<Rightarrow> nat \<Rightarrow> nat \<Rightarrow> error + internalNodeCell option list" where
  "swap_fileOffsets cs i j =
     (case cell_at cs i of
        Inl e \<Rightarrow> Inl e
      | Inr ci \<Rightarrow>
          (case cell_at cs j of
             Inl e \<Rightarrow> Inl e
           | Inr cj \<Rightarrow>
               (let cs1 = cs[i := Some (ci\<lparr>ic_fileOffset := ic_fileOffset cj\<rparr>)];
                    cj1 = the (cs1 ! j)
                in Inr (cs1[j := Some (cj1\<lparr>ic_fileOffset := ic_fileOffset ci\<rparr>)]))))"

text \<open>
  \<open>internalNode.insertCell\<close>. Its only failures are panics, which unwind the caller, so
  the result is the node or the panic. At \<open>offset = len(offsets)\<close> the method panics
  either in the slice expression or, when the backing array has room, in the exchange
  at \<open>offsets[offset+1]\<close>.
\<close>

definition internalNode_insertCell ::
  "internalNode \<Rightarrow> u32 \<Rightarrow> u32 \<Rightarrow> u64 \<Rightarrow> error + internalNode" where
  "internalNode_insertCell n offset k fo =
     (if length (offsets n) \<le> unat offset then Inl RuntimePanic
      else
        (let offs1 = open_slot (offsets n) offset in
         if length offs1 \<le> unat offset then Inl RuntimePanic
         else
           (let offs2 = offs1[unat offset := of_nat (length (icells n))];
                cs1 = icells n @ [Some \<lparr>ic_key = k, ic_fileOffset = fo\<rparr>]
            in if length offs2 \<le> unat (offset + 1) then Inl RuntimePanic
               else
                 (case swap_fileOffsets cs1 (unat (offs2 ! unat offset))
                         (unat (offs2 ! unat (offset + 1))) of
                    Inl e \<Rightarrow> Inl e
                  | Inr cs2 \<Rightarrow> Inr (n\<lparr>offsets := offs2, icells := cs2\<rparr>)))))"

text \<open>
  The leaf methods return an \<open>error\<close> and leave the node behind: the model returns both,
  \<open>None\<close> for \<open>nil\<close>. A panic is reported with the node as it is at that moment.
\<close>

definition leafNode_insertCell ::
  "leafNode \<Rightarrow> u32 \<Rightarrow> u32 \<Rightarrow> byte list \<Rightarrow> error option \<times> leafNode" where
  "leafNode_insertCell n offset k val =
     (case checkRowSizeLimit val of
        Some e \<Rightarrow> (Some e, n)
      | None \<Rightarrow>
          (let newCell = Some \<lparr>lc_key = k, lc_valueSize = of_nat (length val),
                                 lc_valueBytes = val, lc_deleted = False\<rparr>
           in if (of_nat (length (offsets n)) :: u32) = offset then
                (None, n\<lparr>offsets := offsets n @ [of_nat (length (lcells n))],
                          lcells := lcells n @ [newCell]\<rparr>)
              else if length (offsets n) < unat offset then (Some RuntimePanic, n)
              else
                (let offs1 = open_slot (offsets n) offset in
                 if length offs1 \<le> unat offset then
                   (Some RuntimePanic, n\<lparr>offsets := offs1\<rparr>)
                 else
                   (None, n\<lparr>offsets := offs1[unat offset := of_nat (length (lcells n))],
                             lcells := lcells n @ [newCell]\<rparr>))))"

text \<open>
  \<open>leafNode.updateCell\<close> writes \<open>n.cells[offset]\<close>, where \<open>offset\<close> is the slot that
  \<open>findCellOffsetByKey\<close> returned.
\<close>

definition leafNode_updateCell ::
  "leafNode \<Rightarrow> u32 \<Rightarrow> byte list \<Rightarrow> error option \<times> leafNode" where
  "leafNode_updateCell n k val =
     (case checkRowSizeLimit val of
        Some e \<Rightarrow> (Some e, n)
      | None \<Rightarrow>
          (case leafNode_findCellOffsetByKey n k of
             Inl e \<Rightarrow> (Some e, n)
           | Inr (offset, found) \<Rightarrow>
               if \<not> found then (Some (ErrRecordNotFound k), n)
               else
                 (case cell_at (lcells n) (nat offset) of
                    Inl e \<Rightarrow> (Some e, n)
                  | Inr c \<Rightarrow>
                      (None,
                       n\<lparr>lcells := (lcells n)[nat offset :=
                            Some (c\<lparr>lc_valueBytes := val,
                                     lc_valueSize := of_nat (length val)\<rparr>)]\<rparr>))))"

definition internalNode_isFull :: "internalNode \<Rightarrow> bool" where
  "internalNode_isFull n = (length (offsets n) \<ge> maxInternalNodeCells)"

definition leafNode_isFull :: "leafNode \<Rightarrow> bool" where
  "leafNode_isFull n = (length (offsets n) \<ge> maxLeafNodeCells)"

section \<open>Split\<close>

text \<open>
  The copying loops of the two \<open>split\<close> methods run over the slots from their first index
  to the end, that is over a suffix of \<open>p.offsets\<close>; \<open>p\<close> itself is not written until the
  loop is over. \<open>p\<close> and \<open>newPg\<close> are two different nodes.
\<close>

fun internal_split_loop ::
  "internalNodeCell option list \<Rightarrow> u16 list \<Rightarrow> internalNode \<Rightarrow> error + internalNode" where
  "internal_split_loop cs [] newPg = Inr newPg"
| "internal_split_loop cs (off # rest) newPg =
     (case cell_at cs (unat off) of
        Inl e \<Rightarrow> Inl e
      | Inr c \<Rightarrow>
          internal_split_loop cs rest
            (internalNode_appendCell newPg (ic_key c) (ic_fileOffset c)))"

text \<open>The result is the promoted key, \<open>p\<close> after the call and \<open>newPg\<close> after the call.\<close>

definition internalNode_split ::
  "internalNode \<Rightarrow> internalNode \<Rightarrow> error + (u32 \<times> internalNode \<times> internalNode)" where
  "internalNode_split p newPg =
     (let mid = length (offsets p) div 2 in
      case internal_split_loop (icells p) (drop (mid + 1) (offsets p)) newPg of
        Inl e \<Rightarrow> Inl e
      | Inr newPg1 \<Rightarrow>
          (let newPg2 = internalNode_setRightMostKey newPg1 (rightOffset p) in
           case cell_at (icells p) mid of
             Inl e \<Rightarrow> Inl e
           | Inr c \<Rightarrow>
               (let k = ic_key c;
                    p1 = internalNode_setRightMostKey p (ic_fileOffset c);
                    p2 = p1\<lparr>offsets := take mid (offsets p1)\<rparr>
                in Inr (k, p2, newPg2))))"

fun leaf_split_loop ::
  "leafNodeCell option list \<Rightarrow> u16 list \<Rightarrow> leafNode \<Rightarrow> error + leafNode" where
  "leaf_split_loop cs [] newPg = Inr newPg"
| "leaf_split_loop cs (off # rest) newPg =
     (case cell_at cs (unat off) of
        Inl e \<Rightarrow> Inl e
      | Inr c \<Rightarrow>
          leaf_split_loop cs rest (leafNode_appendCell newPg (lc_key c) (lc_valueBytes c)))"

definition leafNode_split ::
  "leafNode \<Rightarrow> leafNode \<Rightarrow> error + (u32 \<times> leafNode \<times> leafNode)" where
  "leafNode_split p newPg =
     (let mid = length (offsets p) div 2 in
      case leaf_split_loop (lcells p) (drop mid (offsets p)) newPg of
        Inl e \<Rightarrow> Inl e
      | Inr newPg1 \<Rightarrow>
          (let p1 = p\<lparr>offsets := take mid (offsets p)\<rparr> in
           if offsets newPg1 = [] then Inl RuntimePanic
           else
             (case cell_at (lcells newPg1) (unat (offsets newPg1 ! 0)) of
                Inl e \<Rightarrow> Inl e
              | Inr c \<Rightarrow> Inr (lc_key c, p1, newPg1))))"

section \<open>Little-endian fields and the byte buffer\<close>

text \<open>
  \<open>binary.Write\<close> with \<open>binary.LittleEndian\<close>: the bytes of a fixed-width unsigned
  integer, least significant first. \<open>le_nat\<close> reads them back.
\<close>

fun le_bytes :: "nat \<Rightarrow> nat \<Rightarrow> byte list" where
  "le_bytes 0 x = []"
| "le_bytes (Suc n) x = of_nat (x mod 256) # le_bytes n (x div 256)"

fun le_nat :: "byte list \<Rightarrow> nat" where
  "le_nat [] = 0"
| "le_nat (b # bs) = unat b + 256 * le_nat bs"

definition put_u16 :: "u16 \<Rightarrow> byte list" where
  "put_u16 w = le_bytes 2 (unat w)"

definition put_u32 :: "u32 \<Rightarrow> byte list" where
  "put_u32 w = le_bytes 4 (unat w)"

definition put_u64 :: "u64 \<Rightarrow> byte list" where
  "put_u64 w = le_bytes 8 (unat w)"

definition put_bool :: "bool \<Rightarrow> byte list" where
  "put_bool b = [if b then 1 else 0]"

text \<open>
  \<open>binary.Read\<close> fills its value with \<open>io.ReadFull\<close>: a buffer with too few bytes gives
  \<open>io.EOF\<close> when it is empty and \<open>io.ErrUnexpectedEOF\<close> otherwise. The buffer is the list
  of bytes not read yet.
\<close>

definition read_full :: "nat \<Rightarrow> byte list \<Rightarrow> error + (byte list \<times> byte list)" where
  "read_full n buf =
     (if n \<le> length buf then Inr (take n buf, drop n buf)
      else if buf = [] then Inl ErrEOF else Inl ErrUnexpectedEOF)"

definition bind_res :: "error + 'a \<Rightarrow> ('a \<Rightarrow> error + 'b) \<Rightarrow> error + 'b" where
  "bind_res r f = (case r of Inl e \<Rightarrow> Inl e | Inr x \<Rightarrow> f x)"

definition read_u8 :: "byte list \<Rightarrow> error + (byte \<times> byte list)" where
  "read_u8 buf = bind_res (read_full 1 buf) (\<lambda>(bs, rest). Inr (of_nat (le_nat bs), rest))"

definition read_u16 :: "byte list \<Rightarrow> error + (u16 \<times> byte list)" where
  "read_u16 buf = bind_res (read_full 2 buf) (\<lambda>(bs, rest). Inr (of_nat (le_nat bs), rest))"

definition read_u32 :: "byte list \<Rightarrow> error + (u32 \<times> byte list)" where
  "read_u32 buf = bind_res (read_full 4 buf) (\<lambda>(bs, rest). Inr (of_nat (le_nat bs), rest))"

definition read_u64 :: "byte list \<Rightarrow> error + (u64 \<times> byte list)" where
  "read_u64 buf = bind_res (read_full 8 buf) (\<lambda>(bs, rest). Inr (of_nat (le_nat bs), rest))"

definition read_bool :: "byte list \<Rightarrow> error + (bool \<times> byte list)" where
  "read_bool buf = bind_res (read_full 1 buf) (\<lambda>(bs, rest). Inr (hd bs \<noteq> 0, rest))"

text \<open>
  \<open>bytes.Buffer.Read(p)\<close>: \<open>io.EOF\<close> only on an empty buffer and a non-empty \<open>p\<close>;
  otherwise it copies what there is and reports no error, the rest of \<open>p\<close> staying zero.
\<close>

definition buffer_Read :: "nat \<Rightarrow> byte list \<Rightarrow> error + (byte list \<times> byte list)" where
  "buffer_Read n buf =
     (if buf = [] then (if n = 0 then Inr ([], []) else Inl ErrEOF)
      else Inr (take n buf @ replicate (n - length buf) 0, drop n buf))"

section \<open>Page codec\<close>

fun internal_footer :: "internalNodeCell option list \<Rightarrow> u16 list \<Rightarrow> error + byte list" where
  "internal_footer cs [] = Inr []"
| "internal_footer cs (off # rest) =
     (case cell_at cs (unat off) of
        Inl e \<Rightarrow> Inl e
      | Inr keyCell \<Rightarrow>
          (case internal_footer cs rest of
             Inl e \<Rightarrow> Inl e
           | Inr bs \<Rightarrow>
               Inr (put_u32 (ic_key keyCell) @ put_u64 (ic_fileOffset keyCell) @ bs)))"

text \<open>
  \<open>cellCount\<close> is \<open>uint32(len(p.offsets))\<close> and bounds the footer loop; the loop over the
  offsets runs to \<open>len(p.offsets)\<close>. \<open>freeSize\<close> is an \<open>int\<close> expression converted to
  \<open>uint16\<close>.
\<close>

definition internalNode_encode :: "internalNode \<Rightarrow> error + byte list" where
  "internalNode_encode p =
     (let cellCount = (of_nat (length (offsets p)) :: u32);
          buf = [InternalNode] @ put_u64 (fileOffset p) @ put_u64 (lastLSN p) @
                put_u64 (rightOffset p) @ put_u32 cellCount @
                concat (map put_u16 (offsets p))
      in case internal_footer (icells p) (take (unat cellCount) (offsets p)) of
           Inl e \<Rightarrow> Inl e
         | Inr bufFooter \<Rightarrow>
             (let freeSize =
                    (of_int (int pageSize - int (length buf) - int (length bufFooter) - 2) :: u16);
                  buf1 = buf @ put_u16 freeSize @ replicate (unat freeSize) 0 @ bufFooter
              in if length buf1 \<noteq> pageSize then Inl (PageSizePanic (length buf1))
                 else Inr buf1))"

fun leaf_footer :: "leafNodeCell option list \<Rightarrow> u16 list \<Rightarrow> error + byte list" where
  "leaf_footer cs [] = Inr []"
| "leaf_footer cs (off # rest) =
     (case cell_at cs (unat off) of
        Inl e \<Rightarrow> Inl e
      | Inr keyCell \<Rightarrow>
          (case leaf_footer cs rest of
             Inl e \<Rightarrow> Inl e
           | Inr bs \<Rightarrow>
               Inr (put_u32 (lc_key keyCell) @ put_bool (lc_deleted keyCell) @
                    put_u32 (lc_valueSize keyCell) @ lc_valueBytes keyCell @ bs)))"

definition leafNode_encode :: "leafNode \<Rightarrow> error + byte list" where
  "leafNode_encode p =
     (let cellCount = (of_nat (length (offsets p)) :: u32);
          buf = [LeafNode] @ put_u64 (fileOffset p) @ put_u64 (lastLSN p) @
                put_bool (hasLSib p) @ put_bool (hasRSib p) @
                put_u64 (lSibFileOffset p) @ put_u64 (rSibFileOffset p) @
                put_u32 cellCount @ concat (map put_u16 (offsets p))
      in case leaf_footer (lcells p) (take (unat cellCount) (offsets p)) of
           Inl e \<Rightarrow> Inl e
         | Inr bufFooter \<Rightarrow>
             (let freeSize =
                    (of_int (int pageSize - int (length buf) - int (length bufFooter) - 2) :: u16);
                  buf1 = buf @ put_u16 freeSize @ replicate (unat freeSize) 0 @ bufFooter
              in if length buf1 \<noteq> pageSize then Inl (PageSizePanic (length buf1))
                 else Inr buf1))"

text \<open>The loop of \<open>decode\<close> that appends \<open>cellCount\<close> offsets to \<open>p.offsets\<close>.\<close>

fun read_offsets :: "nat \<Rightarrow> byte list \<Rightarrow> u16 list \<Rightarrow> error + (u16 list \<times> byte list)" where
  "read_offsets 0 buf offs = Inr (offs, buf)"
| "read_offsets (Suc n) buf offs =
     bind_res (read_u16 buf) (\<lambda>(offset, buf1). read_offsets n buf1 (offs @ [offset]))"

text \<open>
  The loop of \<open>decode\<close> that reads the cells and stores the \<open>i\<close>-th at
  \<open>p.cells[p.offsets[i]]\<close>, over the first \<open>cellCount\<close> offsets; the store panics when
  the offset is not below \<open>cellCount\<close>, the length \<open>p.cells\<close> was made with.
\<close>

fun internal_read_cells ::
  "u16 list \<Rightarrow> byte list \<Rightarrow> internalNodeCell option list \<Rightarrow>
   error + internalNodeCell option list" where
  "internal_read_cells [] buf cs = Inr cs"
| "internal_read_cells (off # rest) buf cs =
     bind_res (read_u32 buf) (\<lambda>(k, buf1).
     bind_res (read_u64 buf1) (\<lambda>(fo, buf2).
       if unat off < length cs then
         internal_read_cells rest buf2 (cs[unat off := Some \<lparr>ic_key = k, ic_fileOffset = fo\<rparr>])
       else Inl RuntimePanic))"

text \<open>
  \<open>decode\<close> on the receiver \<open>p\<close> (a fresh node in \<open>fetch\<close>); on an error the caller drops
  the node, so the result is the error or the decoded node.
\<close>

definition internalNode_decode :: "internalNode \<Rightarrow> byte list \<Rightarrow> error + internalNode" where
  "internalNode_decode p buf =
     bind_res (read_u8 buf) (\<lambda>(cellType, b1).
     if cellType \<noteq> InternalNode then Inl (ErrDecodeType InternalNode cellType)
     else
     bind_res (read_u64 b1) (\<lambda>(fo, b2).
     bind_res (read_u64 b2) (\<lambda>(lsn, b3).
     bind_res (read_u64 b3) (\<lambda>(ro, b4).
     bind_res (read_u32 b4) (\<lambda>(cellCount, b5).
     bind_res (read_offsets (unat cellCount) b5 (offsets p)) (\<lambda>(offs, b6).
     bind_res (read_u16 b6) (\<lambda>(fs, b7).
     bind_res (internal_read_cells (take (unat cellCount) offs) (drop (unat fs) b7)
                 (replicate (unat cellCount) None)) (\<lambda>cs.
       Inr (p\<lparr>fileOffset := fo, offsets := offs, freeSize := fs, lastLSN := lsn,
               icells := cs, rightOffset := ro\<rparr>)))))))))"

fun leaf_read_cells ::
  "u16 list \<Rightarrow> byte list \<Rightarrow> leafNodeCell option list \<Rightarrow> error + leafNodeCell option list" where
  "leaf_read_cells [] buf cs = Inr cs"
| "leaf_read_cells (off # rest) buf cs =
     bind_res (read_u32 buf) (\<lambda>(k, buf1).
     bind_res (read_bool buf1) (\<lambda>(del, buf2).
     bind_res (read_u32 buf2) (\<lambda>(vs, buf3).
     bind_res (buffer_Read (unat vs) buf3) (\<lambda>(strBuf, buf4).
       if unat off < length cs then
         leaf_read_cells rest buf4
           (cs[unat off := Some \<lparr>lc_key = k, lc_valueSize = vs, lc_valueBytes = strBuf,
                                   lc_deleted = del\<rparr>])
       else Inl RuntimePanic))))"

definition leafNode_decode :: "leafNode \<Rightarrow> byte list \<Rightarrow> error + leafNode" where
  "leafNode_decode p buf =
     bind_res (read_u8 buf) (\<lambda>(cellType, b1).
     if cellType \<noteq> LeafNode then Inl (ErrDecodeType LeafNode cellType)
     else
     bind_res (read_u64 b1) (\<lambda>(fo, b2).
     bind_res (read_u64 b2) (\<lambda>(lsn, b3).
     bind_res (read_bool b3) (\<lambda>(hl, b4).
     bind_res (read_bool b4) (\<lambda>(hr, b5).
     bind_res (read_u64 b5) (\<lambda>(ls, b6).
     bind_res (read_u64 b6) (\<lambda>(rs, b7).
     bind_res (read_u32 b7) (\<lambda>(cellCount, b8).
     bind_res (read_offsets (unat cellCount) b8 (offsets p)) (\<lambda>(offs, b9).
     bind_res (read_u16 b9) (\<lambda>(fs, b10).
     bind_res (leaf_read_cells (take (unat cellCount) offs) (drop (unat fs) b10)
                 (replicate (unat cellCount) None)) (\<lambda>cs.
       Inr (p\<lparr>fileOffset := fo, offsets := offs, freeSize := fs, lastLSN := lsn,
               lcells := cs, hasLSib := hl, hasRSib := hr, lSibFileOffset := ls,
               rSibFileOffset := rs\<rparr>))))))))))))"

text \<open>The zero values \<open>&internalNode{}\<close> and \<open>&leafNode{}\<close>.\<close>

definition empty_internalNode :: internalNode where
  "empty_internalNode =
     \<lparr>fileOffset = 0, offsets = [], freeSize = 0, dirty = False, lastLSN = 0,
      icells = [], rightOffset = 0\<rparr>"

definition empty_leafNode :: leafNode where
  "empty_leafNode =
     \<lparr>fileOffset = 0, offsets = [], freeSize = 0, dirty = False, lastLSN = 0,
      lcells = [], hasLSib = False, hasRSib = False, lSibFileOffset = 0,
      rSibFileOffset = 0\<rparr>"

section \<open>The backing file\<close>

text \<open>
  The file handle: the bytes of the file, the position of its sequential reads, and the
  environment's answers to the coming \<open>WriteAt\<close> calls (\<open>True\<close>: the call fails; none
  left: it succeeds). \<open>wlog\<close> records every \<open>WriteAt\<close> call in order, with its offset, its
  bytes and whether it succeeded. A failed call leaves the bytes of the file as they
  were. Reads do not fail other than by reaching the end of the file.
\<close>

record osFile =
  fdata :: "byte list"
  fpos :: nat
  faults :: "bool list"
  wlog :: "(int \<times> byte list \<times> bool) list"

definition pwrite :: "nat \<Rightarrow> byte list \<Rightarrow> byte list \<Rightarrow> byte list" where
  "pwrite off b d = take off d @ replicate (off - length d) 0 @ b @ drop (off + length b) d"

text \<open>\<open>WriteAt\<close> refuses a negative offset before it writes.\<close>

definition file_WriteAt :: "osFile \<Rightarrow> byte list \<Rightarrow> int \<Rightarrow> error option \<times> osFile" where
  "file_WriteAt f b off =
     (if off < 0 then (Some ErrIO, f\<lparr>wlog := wlog f @ [(off, b, False)]\<rparr>)
      else
        (case faults f of
           True # r \<Rightarrow> (Some ErrIO, f\<lparr>faults := r, wlog := wlog f @ [(off, b, False)]\<rparr>)
         | _ \<Rightarrow>
             (None, f\<lparr>fdata := pwrite (nat off) b (fdata f), faults := tl (faults f),
                       wlog := wlog f @ [(off, b, True)]\<rparr>)))"

text \<open>\<open>binary.Read\<close> on the file: \<open>io.ReadFull\<close> from the current position.\<close>

definition file_ReadFull :: "osFile \<Rightarrow> nat \<Rightarrow> (error + byte list) \<times> osFile" where
  "file_ReadFull f n =
     (let avail = drop (fpos f) (fdata f) in
      if n \<le> length avail then (Inr (take n avail), f\<lparr>fpos := fpos f + n\<rparr>)
      else (Inl (if avail = [] then ErrEOF else ErrUnexpectedEOF),
            f\<lparr>fpos := max (fpos f) (length (fdata f))\<rparr>))"

section \<open>Cached nodes\<close>

text \<open>
  The store and its cache hold pointers to nodes, and \<open>flushPages\<close> changes a node through
  the pointer it found in the cache: nodes live in a heap, and the cache holds addresses.
\<close>

datatype btreeNode = Internal internalNode | Leaf leafNode

type_synonym addr = nat

type_synonym heap = "addr \<Rightarrow> btreeNode option"

fun btree_encode :: "btreeNode \<Rightarrow> error + byte list" where
  "btree_encode (Internal n) = internalNode_encode n"
| "btree_encode (Leaf n) = leafNode_encode n"

fun btree_isDirty :: "btreeNode \<Rightarrow> bool" where
  "btree_isDirty (Internal n) = isDirty n"
| "btree_isDirty (Leaf n) = isDirty n"

fun btree_markClean :: "btreeNode \<Rightarrow> btreeNode" where
  "btree_markClean (Internal n) = Internal (markClean n)"
| "btree_markClean (Leaf n) = Leaf (markClean n)"

fun btree_getFileOffset :: "btreeNode \<Rightarrow> u64" where
  "btree_getFileOffset (Internal n) = fileOffset n"
| "btree_getFileOffset (Leaf n) = fileOffset n"

text \<open>
  Modelled from the spec: the type \<open>LRUCache\<close> and its method \<open>set\<close>, which are not in the
  source files at hand. The spec: a bounded map from file offset to resident node with a
  recency list; \<open>set\<close> inserts or replaces; at capacity it evicts the least recently used
  entry that is not dirty, scanning from the LRU end toward the MRU end, and fails when
  every entry is dirty. \<open>entries\<close> is the recency list, most recently used first, and is
  the map as well: no key occurs twice.
\<close>

record lruCache =
  capacity :: nat
  entries :: "(u64 \<times> addr) list"

definition entry_dirty :: "heap \<Rightarrow> (u64 \<times> addr) \<Rightarrow> bool" where
  "entry_dirty h e = (case h (snd e) of Some n \<Rightarrow> btree_isDirty n | None \<Rightarrow> False)"

text \<open>Modelled from the spec: the entry that \<open>set\<close> evicts, if any.\<close>

definition lru_victim :: "heap \<Rightarrow> (u64 \<times> addr) list \<Rightarrow> (u64 \<times> addr) option" where
  "lru_victim h es = find (\<lambda>e. \<not> entry_dirty h e) (rev es)"

text \<open>Modelled from the spec: \<open>LRUCache.set\<close>; \<open>None\<close> is its result \<open>false\<close>.\<close>

definition lru_set :: "heap \<Rightarrow> lruCache \<Rightarrow> u64 \<Rightarrow> addr \<Rightarrow> lruCache option" where
  "lru_set h c k a =
     (if k \<in> fst ` set (entries c) then
        Some (c\<lparr>entries := (k, a) # filter (\<lambda>e. fst e \<noteq> k) (entries c)\<rparr>)
      else if length (entries c) < capacity c then
        Some (c\<lparr>entries := (k, a) # entries c\<rparr>)
      else
        (case lru_victim h (entries c) of
           None \<Rightarrow> None
         | Some v \<Rightarrow> Some (c\<lparr>entries := (k, a) # filter (\<lambda>e. e \<noteq> v) (entries c)\<rparr>)))"

section \<open>The file store\<close>

text \<open>
  The fields of \<open>fileStore\<close> that hold data; the ticker, its channel and the mutex belong
  to the scheduling of the flusher and are not part of a single call. \<open>fs_file\<close> is the
  field \<open>file\<close> and \<open>f_nextLSN\<close> the field \<open>_nextLSN\<close>.
\<close>

record fileStore =
  fs_file :: osFile
  lastKey :: u32
  rootOffset :: u64
  nextFreeOffset :: u64
  pageTableRoot :: u64
  cache :: lruCache
  f_nextLSN :: u64

definition setCache :: "heap \<Rightarrow> fileStore \<Rightarrow> u64 \<Rightarrow> addr \<Rightarrow> error option \<times> fileStore" where
  "setCache h f k val =
     (case lru_set h (cache f) k val of
        None \<Rightarrow> (Some ErrLRUCacheFull, f)
      | Some c \<Rightarrow> (None, f\<lparr>cache := c\<rparr>))"

text \<open>
  \<open>fileStore.update\<close>: the error of \<open>WriteAt\<close> is kept while the node is put in the cache
  again, and is returned unless \<open>setCache\<close> fails itself. The offset is converted to
  \<open>int64\<close>.
\<close>

definition fileStore_update :: "heap \<Rightarrow> fileStore \<Rightarrow> addr \<Rightarrow> error option \<times> fileStore" where
  "fileStore_update h f a =
     (case h a of
        None \<Rightarrow> (Some RuntimePanic, f)
      | Some nd \<Rightarrow>
          (case btree_encode nd of
             Inl e \<Rightarrow> (Some e, f)
           | Inr buf \<Rightarrow>
               (let (werr, file1) = file_WriteAt (fs_file f) buf (sint (btree_getFileOffset nd));
                    f1 = f\<lparr>fs_file := file1\<rparr>
                in case setCache h f1 (btree_getFileOffset nd) a of
                     (Some e, f2) \<Rightarrow> (Some e, f2)
                   | (None, f2) \<Rightarrow> (werr, f2))))"

definition header_bytes :: "fileStore \<Rightarrow> byte list" where
  "header_bytes f =
     put_u32 (lastKey f) @ put_u64 (pageTableRoot f) @ put_u64 (nextFreeOffset f) @
     put_u64 (f_nextLSN f)"

definition fileStore_save :: "fileStore \<Rightarrow> error option \<times> fileStore" where
  "fileStore_save f =
     (let (err, file1) = file_WriteAt (fs_file f) (header_bytes f) 0
      in (err, f\<lparr>fs_file := file1\<rparr>))"

text \<open>\<open>fileStore.open\<close> assigns each field as soon as it is read.\<close>

definition fileStore_open :: "fileStore \<Rightarrow> error option \<times> fileStore" where
  "fileStore_open f =
     (case file_ReadFull (fs_file f) 4 of
        (Inl e, fl1) \<Rightarrow> (Some e, f\<lparr>fs_file := fl1\<rparr>)
      | (Inr b1, fl1) \<Rightarrow>
     (case file_ReadFull fl1 8 of
        (Inl e, fl2) \<Rightarrow> (Some e, f\<lparr>fs_file := fl2, lastKey := of_nat (le_nat b1)\<rparr>)
      | (Inr b2, fl2) \<Rightarrow>
     (case file_ReadFull fl2 8 of
        (Inl e, fl3) \<Rightarrow>
          (Some e, f\<lparr>fs_file := fl3, lastKey := of_nat (le_nat b1),
                     pageTableRoot := of_nat (le_nat b2)\<rparr>)
      | (Inr b3, fl3) \<Rightarrow>
     (case file_ReadFull fl3 8 of
        (Inl e, fl4) \<Rightarrow>
          (Some e, f\<lparr>fs_file := fl4, lastKey := of_nat (le_nat b1),
                     pageTableRoot := of_nat (le_nat b2),
                     nextFreeOffset := of_nat (le_nat b3)\<rparr>)
      | (Inr b4, fl4) \<Rightarrow>
          (None, f\<lparr>fs_file := fl4, lastKey := of_nat (le_nat b1),
                   pageTableRoot := of_nat (le_nat b2),
                   nextFreeOffset := of_nat (le_nat b3),
                   f_nextLSN := of_nat (le_nat b4)\<rparr>)))))"

text \<open>
  \<open>newFileStore\<close> on the file at the path: a new handle, which reads from position 0, an
  empty cache of 10000 entries and zero fields.
\<close>

definition newFileStore :: "osFile \<Rightarrow> fileStore" where
  "newFileStore fl =
     \<lparr>fs_file = fl\<lparr>fpos := 0\<rparr>, lastKey = 0, rootOffset = 0, nextFreeOffset = 0,
      pageTableRoot = 0, cache = \<lparr>capacity = 10000, entries = []\<rparr>, f_nextLSN = 0\<rparr>"

text \<open>
  The loop of \<open>flushPages\<close> ranges over the map of the cache. \<open>ks\<close> is the order in which
  the range reaches the keys; a key whose entry has gone by the time it is reached is
  not produced.
\<close>

fun flush_loop ::
  "heap \<Rightarrow> fileStore \<Rightarrow> u64 list \<Rightarrow> error option \<times> heap \<times> fileStore" where
  "flush_loop h f [] = (None, h, f)"
| "flush_loop h f (k # ks) =
     (case map_of (entries (cache f)) k of
        None \<Rightarrow> flush_loop h f ks
      | Some a \<Rightarrow>
          (case h a of
             None \<Rightarrow> (Some RuntimePanic, h, f)
           | Some nd \<Rightarrow>
               if \<not> btree_isDirty nd then flush_loop h f ks
               else
                 (case fileStore_update h f a of
                    (Some e, f1) \<Rightarrow> (Some e, h, f1)
                  | (None, f1) \<Rightarrow> flush_loop (h(a \<mapsto> btree_markClean nd)) f1 ks)))"

definition fileStore_flushPages ::
  "heap \<Rightarrow> fileStore \<Rightarrow> u64 list \<Rightarrow> error option \<times> heap \<times> fileStore" where
  "fileStore_flushPages h f ks =
     (case flush_loop h f ks of
        (Some e, h1, f1) \<Rightarrow> (Some e, h1, f1)
      | (None, h1, f1) \<Rightarrow> (let (err, f2) = fileStore_save f1 in (err, h1, f2)))"

section \<open>Vocabulary of the properties\<close>

text \<open>
  What \<open>findCellOffsetByKey\<close> owes for the probe \<open>k\<close> on a node whose keys in slot order
  are \<open>ks\<close>: it returns; \<open>found\<close> says whether some slot holds \<open>k\<close>; when found the slot
  holds \<open>k\<close>; otherwise every key before the slot is smaller and every key from the slot
  on is greater.
\<close>

definition search_post :: "u32 list \<Rightarrow> u32 \<Rightarrow> error + (int \<times> bool) \<Rightarrow> bool" where
  "search_post ks k r =
     (case r of
        Inl e \<Rightarrow> False
      | Inr (i, found) \<Rightarrow>
          0 \<le> i \<and> i \<le> int (length ks) \<and> (found \<longleftrightarrow> k \<in> set ks) \<and>
          (if found then i < int (length ks) \<and> ks ! nat i = k
           else list_all (\<lambda>x. x < k) (take (nat i) ks) \<and>
                list_all (\<lambda>x. k < x) (drop (nat i) ks)))"

text \<open>
  Two small nodes. \<open>leaf_ex\<close> is the leaf after \<open>insertCell(0, 5, "a")\<close> and
  \<open>insertCell(0, 1, "b")\<close> on an empty leaf; \<open>internal_ex\<close> is the internal node after
  \<open>appendCell(20, 200)\<close>, \<open>appendCell(30, 300)\<close> and \<open>insertCell(0, 10, 100)\<close> on an empty
  internal node whose rightmost pointer is 400.
\<close>

definition leaf_ex :: leafNode where
  "leaf_ex =
     empty_leafNode\<lparr>offsets := [1, 0],
       lcells := [Some \<lparr>lc_key = 5, lc_valueSize = 1, lc_valueBytes = [97], lc_deleted = False\<rparr>,
                  Some \<lparr>lc_key = 1, lc_valueSize = 1, lc_valueBytes = [98], lc_deleted = False\<rparr>]\<rparr>"

definition internal_ex :: internalNode where
  "internal_ex =
     empty_internalNode\<lparr>offsets := [2, 0, 1],
       icells := [Some \<lparr>ic_key = 20, ic_fileOffset = 100\<rparr>,
                  Some \<lparr>ic_key = 30, ic_fileOffset = 300\<rparr>,
                  Some \<lparr>ic_key = 10, ic_fileOffset = 200\<rparr>],
       rightOffset := 400\<rparr>"

text \<open>The internal node before the \<open>insertCell\<close> that gives \<open>internal_ex\<close>.\<close>

definition internal_pre :: internalNode where
  "internal_pre =
     internalNode_appendCell
       (internalNode_appendCell (empty_internalNode\<lparr>rightOffset := 400\<rparr>) 20 200) 30 300"

text \<open>
  The entries of a node in slot order: the (key, value) pairs of a leaf and the
  (key, child offset) pairs of an internal node. \<open>leaf_copy\<close> is the cell that
  \<open>appendCell(cell.key, cell.valueBytes)\<close> makes from a cell.
\<close>

definition leaf_entries :: "leafNode \<Rightarrow> (u32 \<times> byte list) list" where
  "leaf_entries n = map (\<lambda>c. (lc_key c, lc_valueBytes c)) (slot_cells (lcells n) (offsets n))"

definition internal_entries :: "internalNode \<Rightarrow> (u32 \<times> u64) list" where
  "internal_entries n = map (\<lambda>c. (ic_key c, ic_fileOffset c)) (slot_cells (icells n) (offsets n))"

definition leaf_copy :: "leafNodeCell \<Rightarrow> leafNodeCell" where
  "leaf_copy c =
     \<lparr>lc_key = lc_key c, lc_valueSize = of_nat (length (lc_valueBytes c)),
      lc_valueBytes = lc_valueBytes c, lc_deleted = False\<rparr>"

text \<open>
  A node that fits a page: every offset names a cell, the number of slots is at most the
  maximum of its type, and in a leaf no value is longer than \<open>maxValueSize\<close>.
\<close>

fun fits_page :: "btreeNode \<Rightarrow> bool" where
  "fits_page (Internal n) =
     (slots_ok (icells n) (offsets n) \<and> length (offsets n) \<le> maxInternalNodeCells)"
| "fits_page (Leaf n) =
     (slots_ok (lcells n) (offsets n) \<and> length (offsets n) \<le> maxLeafNodeCells \<and>
      list_all (\<lambda>c. length (lc_valueBytes c) \<le> maxValueSize)
        (slot_cells (lcells n) (offsets n)))"

text \<open>A store over an empty file on which no write fails, with a header to save.\<close>

definition store_ex :: fileStore where
  "store_ex =
     (newFileStore \<lparr>fdata = [], fpos = 0, faults = [], wlog = []\<rparr>)
       \<lparr>lastKey := 7, pageTableRoot := 4096, nextFreeOffset := 12288, f_nextLSN := 3\<rparr>"

text \<open>
  The node invariants: every offset names a cell, the keys in slot order are strictly
  increasing, the number of slots is at most the maximum of the type, and in a leaf
  \<open>valueSize\<close> is the length of the value, which is at most \<open>maxValueSize\<close>.
\<close>

definition valid_internal :: "internalNode \<Rightarrow> bool" where
  "valid_internal n =
     (slots_ok (icells n) (offsets n) \<and> sorted_wrt (<) (internal_slot_keys n) \<and>
      length (offsets n) \<le> maxInternalNodeCells)"

definition valid_leaf :: "leafNode \<Rightarrow> bool" where
  "valid_leaf n =
     (slots_ok (lcells n) (offsets n) \<and> sorted_wrt (<) (leaf_slot_keys n) \<and>
      length (offsets n) \<le> maxLeafNodeCells \<and>
      list_all (\<lambda>c. unat (lc_valueSize c) = length (lc_valueBytes c) \<and>
                     length (lc_valueBytes c) \<le> maxValueSize)
        (slot_cells (lcells n) (offsets n)))"

text \<open>
  What the cell loop of \<open>decode\<close> does with the cells once they are parsed: the \<open>i\<close>-th
  cell goes to the index that the \<open>i\<close>-th offset names, in an array of fixed length.
\<close>

fun scatter :: "u16 list \<Rightarrow> 'c list \<Rightarrow> 'c option list \<Rightarrow> error + 'c option list" where
  "scatter [] cs acc = Inr acc"
| "scatter (off # offs) [] acc = Inr acc"
| "scatter (off # offs) (c # cs) acc =
     (if unat off < length acc then scatter offs cs (acc[unat off := Some c])
      else Inl RuntimePanic)"

text \<open>The old page of \<open>leaf_ex\<close> after \<open>split\<close>: one slot, which names the second cell.\<close>

definition leaf_after_split :: leafNode where
  "leaf_after_split = leaf_ex\<lparr>offsets := [1]\<rparr>"

text \<open>
  The cache of a store is in order when it is a map (no key twice) and every entry is a
  resident node cached under its own file offset, as \<open>append\<close>, \<open>update\<close> and \<open>fetch\<close>
  enter it.
\<close>

definition cache_ok :: "heap \<Rightarrow> (u64 \<times> addr) list \<Rightarrow> bool" where
  "cache_ok h es =
     (distinct (map fst es) \<and>
      list_all (\<lambda>e. case h (snd e) of Some nd \<Rightarrow> btree_getFileOffset nd = fst e
                                     | None \<Rightarrow> False) es)"

text \<open>The dirty cached nodes, in the order in which the range reaches their keys.\<close>

fun dirty_addrs :: "heap \<Rightarrow> (u64 \<times> addr) list \<Rightarrow> u64 list \<Rightarrow> addr list" where
  "dirty_addrs h es [] = []"
| "dirty_addrs h es (k # ks) =
     (case map_of es k of
        None \<Rightarrow> dirty_addrs h es ks
      | Some a \<Rightarrow> if entry_dirty h (k, a) then a # dirty_addrs h es ks
                  else dirty_addrs h es ks)"

text \<open>
  The \<open>WriteAt\<close> call that writes the node at an address: its file offset, its encoding
  and whether the call succeeded.
\<close>

definition page_write :: "heap \<Rightarrow> bool \<Rightarrow> addr \<Rightarrow> int \<times> byte list \<times> bool" where
  "page_write h ok a =
     (case h a of
        Some nd \<Rightarrow>
          (sint (btree_getFileOffset nd),
           (case btree_encode nd of Inr buf \<Rightarrow> buf | Inl e \<Rightarrow> []), ok)
      | None \<Rightarrow> (0, [], ok))"

text \<open>
  A heap with a dirty leaf at file offset 4096 and a clean internal node at 8192, and a
  store that caches both over an empty file; \<open>store_flush_fail\<close> is the same store on a
  file whose next write fails.
\<close>

definition heap_ex :: heap where
  "heap_ex =
     (\<lambda>a. if a = 0 then Some (Leaf (markDirty 1 (leaf_ex\<lparr>fileOffset := 4096\<rparr>)))
          else if a = 1 then Some (Internal (internal_ex\<lparr>fileOffset := 8192\<rparr>))
          else None)"

definition store_flush_ex :: fileStore where
  "store_flush_ex =
     store_ex\<lparr>cache := \<lparr>capacity = 10000, entries = [(8192, 1), (4096, 0)]\<rparr>\<rparr>"

definition store_flush_fail :: fileStore where
  "store_flush_fail =
     store_flush_ex\<lparr>fs_file := \<lparr>fdata = [], fpos = 0, faults = [True], wlog = []\<rparr>\<rparr>"

text \<open>
  The outcome of the loop of \<open>flushPages\<close> from heap \<open>h\<close> and store \<open>f\<close> to \<open>h'\<close> and \<open>f'\<close>
  with result \<open>err\<close>: the dirty cached nodes split into those \<open>written\<close>, whose writes
  succeeded, in order, and which are clean now, and the \<open>rest\<close>; no other node has
  changed; the header fields are as before; the loop ends without error exactly when
  nothing is left, and otherwise the first node left is the one whose update failed,
  either before its write or in it (\<open>extra\<close>).
\<close>

definition flush_loop_post ::
  "heap \<Rightarrow> fileStore \<Rightarrow> u64 list \<Rightarrow> error option \<Rightarrow> heap \<Rightarrow> fileStore \<Rightarrow>
   addr list \<Rightarrow> addr list \<Rightarrow> (int \<times> byte list \<times> bool) list \<Rightarrow> bool" where
  "flush_loop_post h f ks err h' f' written rest extra =
     (dirty_addrs h (entries (cache f)) ks = written @ rest \<and>
      wlog (fs_file f') = wlog (fs_file f) @ map (page_write h True) written @ extra \<and>
      (\<forall>a \<in> set written. h' a = map_option btree_markClean (h a)) \<and>
      (\<forall>a. a \<notin> set written \<longrightarrow> h' a = h a) \<and>
      header_bytes f' = header_bytes f \<and>
      (err = None \<longrightarrow> rest = [] \<and> extra = []) \<and>
      (err \<noteq> None \<longrightarrow> rest \<noteq> [] \<and> (extra = [] \<or> extra = [page_write h False (hd rest)])))"

text \<open>The node at an address is there and dirty.\<close>

definition addr_dirty :: "heap \<Rightarrow> addr \<Rightarrow> bool" where
  "addr_dirty h a = (case h a of Some nd \<Rightarrow> btree_isDirty nd | None \<Rightarrow> False)"

section \<open>Search correctness\<close>

declare find_loop.simps [simp del]

lemma find_loop_correct:
  "length ks = length offs \<Longrightarrow>
   (\<And>i. i < length offs \<Longrightarrow> ck (offs ! i) = Inr (ks ! i)) \<Longrightarrow>
   sorted_wrt (<) ks \<Longrightarrow>
   0 \<le> low \<Longrightarrow> high < int (length offs) \<Longrightarrow> low \<le> high + 1 \<Longrightarrow>
     (\<And>j. j < nat low \<Longrightarrow> ks ! j < k) \<Longrightarrow>
     (\<And>j. nat (high + 1) \<le> j \<Longrightarrow> j < length ks \<Longrightarrow> k < ks ! j) \<Longrightarrow>
     \<exists>i b. find_loop ck offs k low high = Inr (i, b) \<and> 0 \<le> i \<and> i \<le> int (length offs) \<and>
        (b \<longrightarrow> i < int (length offs) \<and> ks ! nat i = k) \<and>
        (\<not> b \<longrightarrow> (\<forall>j<nat i. ks ! j < k) \<and> (\<forall>j. nat i \<le> j \<longrightarrow> j < length ks \<longrightarrow> k < ks ! j))"
proof (induction ck offs k low high rule: find_loop.induct)
  case (1 ck offs k low high)
  note len = "1.prems"(1) and ck = "1.prems"(2) and srt = "1.prems"(3)
    and low0 = "1.prems"(4) and hi = "1.prems"(5) and lh = "1.prems"(6)
    and below = "1.prems"(7) and above = "1.prems"(8)
  show ?case
  proof (cases "low \<le> high")
    case False
    with lh have eq: "high + 1 = low" by simp
    have "find_loop ck offs k low high = Inr (low, False)"
      using False by (subst find_loop.simps) simp
    moreover have "\<forall>j<nat low. ks ! j < k" using below by blast
    moreover have "\<forall>j. nat low \<le> j \<longrightarrow> j < length ks \<longrightarrow> k < ks ! j"
      using above eq by simp
    ultimately show ?thesis using low0 hi eq by auto
  next
    case True
    define mid where "mid = low + (high - low) div 2"
    have mid_bounds: "low \<le> mid" "mid \<le> high" using True by (auto simp: mid_def)
    then have mid_rng: "0 \<le> mid" "mid < int (length offs)" using low0 hi by auto
    then have nm: "nat mid < length offs" by simp
    have ckm: "ck (offs ! nat mid) = Inr (ks ! nat mid)" using ck nm by blast
    have nth_mono: "\<And>i j. i < j \<Longrightarrow> j < length ks \<Longrightarrow> ks ! i < ks ! j"
      using srt by (simp add: sorted_wrt_nth_less)
    consider (eq) "ks ! nat mid = k" | (lt) "ks ! nat mid < k" | (gt) "k < ks ! nat mid"
      by fastforce
    then show ?thesis
    proof cases
      case eq
      have "find_loop ck offs k low high = Inr (mid, True)"
        using True mid_rng ckm eq
        by (subst find_loop.simps) (simp add: mid_def [symmetric] Let_def)
      then show ?thesis using mid_rng eq by auto
    next
      case lt
      have step: "find_loop ck offs k low high = find_loop ck offs k (mid + 1) high"
        using True mid_rng ckm lt
        by (subst find_loop.simps) (auto simp add: mid_def [symmetric] Let_def)
      have below': "\<And>j. j < nat (mid + 1) \<Longrightarrow> ks ! j < k"
      proof -
        fix j assume "j < nat (mid + 1)"
        then have "j \<le> nat mid" using mid_rng by linarith
        then show "ks ! j < k"
          using lt nth_mono [of j "nat mid"] nm len by (cases "j = nat mid") auto
      qed
      have "\<not> (mid < 0 \<or> int (length offs) \<le> mid)" using mid_rng by simp
      moreover have "ks ! nat mid \<noteq> k" using lt by simp
      ultimately show ?thesis
        unfolding step
        using "1.IH"(1) [OF True mid_def _ ckm _ lt len ck srt _ hi _ below' above]
          mid_bounds mid_rng
        by simp
    next
      case gt
      have ngt: "\<not> ks ! nat mid < k" "ks ! nat mid \<noteq> k" using gt by auto
      have step: "find_loop ck offs k low high = find_loop ck offs k low (mid - 1)"
        using True mid_rng ckm ngt
        by (subst find_loop.simps) (auto simp add: mid_def [symmetric] Let_def)
      have above': "\<And>j. nat (mid - 1 + 1) \<le> j \<Longrightarrow> j < length ks \<Longrightarrow> k < ks ! j"
      proof -
        fix j assume "nat (mid - 1 + 1) \<le> j" and jl: "j < length ks"
        then have "nat mid \<le> j" by simp
        then show "k < ks ! j"
          using gt nth_mono [of "nat mid" j] jl by (cases "j = nat mid") auto
      qed
      have "\<not> (mid < 0 \<or> int (length offs) \<le> mid)" using mid_rng by simp
      then show ?thesis
        unfolding step
        using "1.IH"(2) [OF True mid_def _ ckm ngt(2) ngt(1) len ck srt low0 _ _ below above']
          mid_bounds mid_rng
        by simp
    qed
  qed
qed

lemma find_loop_search_post:
  assumes len: "length ks = length offs"
    and ck: "\<And>i. i < length offs \<Longrightarrow> ck (offs ! i) = Inr (ks ! i)"
    and srt: "sorted_wrt (<) ks"
  shows "search_post ks k (find_loop ck offs k 0 (int (length offs) - 1))"
proof -
  obtain i b where r: "find_loop ck offs k 0 (int (length offs) - 1) = Inr (i, b)"
    and i0: "0 \<le> i" and il: "i \<le> int (length offs)"
    and fnd: "b \<Longrightarrow> i < int (length offs) \<and> ks ! nat i = k"
    and lo: "\<not> b \<Longrightarrow> \<forall>j<nat i. ks ! j < k"
    and hi: "\<not> b \<Longrightarrow> \<forall>j. nat i \<le> j \<longrightarrow> j < length ks \<longrightarrow> k < ks ! j"
  proof -
    have "\<exists>i b. find_loop ck offs k 0 (int (length offs) - 1) = Inr (i, b) \<and> 0 \<le> i \<and>
        i \<le> int (length offs) \<and> (b \<longrightarrow> i < int (length offs) \<and> ks ! nat i = k) \<and>
        (\<not> b \<longrightarrow> (\<forall>j<nat i. ks ! j < k) \<and> (\<forall>j. nat i \<le> j \<longrightarrow> j < length ks \<longrightarrow> k < ks ! j))"
      by (rule find_loop_correct [OF len ck srt]) (simp_all add: len)
    then show ?thesis using that by blast
  qed
  have mem: "b \<longleftrightarrow> k \<in> set ks"
  proof
    assume b
    then show "k \<in> set ks" using fnd i0 len by (metis nth_mem nat_less_iff)
  next
    assume "k \<in> set ks"
    then obtain j where j: "j < length ks" "ks ! j = k" by (auto simp: in_set_conv_nth)
    show b
    proof (rule ccontr)
      assume nb: "\<not> b"
      show False
      proof (cases "j < nat i")
        case True then show ?thesis using lo [OF nb] j by auto
      next
        case False
        then have "nat i \<le> j" by simp
        with hi [OF nb] j(1) have "k < ks ! j" by blast
        with j(2) show ?thesis by simp
      qed
    qed
  qed
  have tk: "\<not> b \<Longrightarrow> list_all (\<lambda>x. x < k) (take (nat i) ks)"
    using lo by (auto simp: list_all_length)
  have dr: "\<not> b \<Longrightarrow> list_all (\<lambda>x. k < x) (drop (nat i) ks)"
    using hi by (auto simp: list_all_length)
  show ?thesis
    unfolding search_post_def r using i0 il len mem fnd tk dr by simp
qed

lemma slots_ok_cell_at:
  "slots_ok cs offs \<Longrightarrow> i < length offs \<Longrightarrow>
   cell_at cs (unat (offs ! i)) = Inr (slot_cells cs offs ! i)"
  by (auto simp: slots_ok_def slot_cells_def cell_at_def list_all_length)

lemma internalNode_find_search_post:
  assumes "slots_ok (icells n) (offsets n)" "sorted_wrt (<) (internal_slot_keys n)"
  shows "search_post (internal_slot_keys n) k (internalNode_findCellOffsetByKey n k)"
proof -
  have "\<And>i. i < length (offsets n) \<Longrightarrow>
          internalNode_cellKey n (offsets n ! i) = Inr (internal_slot_keys n ! i)"
    using assms
    by (simp add: internalNode_cellKey_def slots_ok_cell_at internal_slot_keys_def slot_cells_def)
  then show ?thesis
    unfolding internalNode_findCellOffsetByKey_def
    using assms
    by (intro find_loop_search_post) (simp_all add: internal_slot_keys_def slot_cells_def)
qed

lemma leafNode_find_search_post:
  assumes "slots_ok (lcells m) (offsets m)" "sorted_wrt (<) (leaf_slot_keys m)"
  shows "search_post (leaf_slot_keys m) k (leafNode_findCellOffsetByKey m k)"
proof -
  have "\<And>i. i < length (offsets m) \<Longrightarrow>
          leafNode_cellKey m (offsets m ! i) = Inr (leaf_slot_keys m ! i)"
    using assms
    by (simp add: leafNode_cellKey_def slots_ok_cell_at leaf_slot_keys_def slot_cells_def)
  then show ?thesis
    unfolding leafNode_findCellOffsetByKey_def
    using assms
    by (intro find_loop_search_post) (simp_all add: leaf_slot_keys_def slot_cells_def)
qed

text \<open>
  C5. For an internal node and for a leaf whose offsets all name cells and whose keys in
  slot order are strictly increasing, \<open>findCellOffsetByKey\<close> returns \<open>(i, true)\<close> exactly
  when some slot holds the key, and then slot \<open>i\<close> holds it; otherwise it returns
  \<open>(i, false)\<close> with every key before slot \<open>i\<close> smaller and every key from slot \<open>i\<close> on
  greater than the probe (\<open>i = len(offsets)\<close> when all keys are smaller).
\<close>

theorem findCellOffsetByKey_lower_bound:
  "(slots_ok (icells n) (offsets n) \<and> sorted_wrt (<) (internal_slot_keys n) \<longrightarrow>
      search_post (internal_slot_keys n) k (internalNode_findCellOffsetByKey n k)) \<and>
   (slots_ok (lcells m) (offsets m) \<and> sorted_wrt (<) (leaf_slot_keys m) \<longrightarrow>
      search_post (leaf_slot_keys m) k (leafNode_findCellOffsetByKey m k))"
  by (simp add: internalNode_find_search_post leafNode_find_search_post)

theorem findCellOffsetByKey_lower_bound_witness:
  "search_post (internal_slot_keys internal_ex) 25
     (internalNode_findCellOffsetByKey internal_ex 25) \<and>
   internalNode_findCellOffsetByKey internal_ex 25 = Inr (2, False) \<and>
   search_post (leaf_slot_keys leaf_ex) 5 (leafNode_findCellOffsetByKey leaf_ex 5) \<and>
   leafNode_findCellOffsetByKey leaf_ex 5 = Inr (1, True)"
proof -
  have i: "slots_ok (icells internal_ex) (offsets internal_ex) \<and>
           sorted_wrt (<) (internal_slot_keys internal_ex)"
    by (simp add: internal_ex_def empty_internalNode_def slots_ok_def internal_slot_keys_def
        slot_cells_def)
  have l: "slots_ok (lcells leaf_ex) (offsets leaf_ex) \<and> sorted_wrt (<) (leaf_slot_keys leaf_ex)"
    by (simp add: leaf_ex_def empty_leafNode_def slots_ok_def leaf_slot_keys_def slot_cells_def)
  have e1: "internalNode_findCellOffsetByKey internal_ex 25 = Inr (2, False)"
    by code_simp
  have e2: "leafNode_findCellOffsetByKey leaf_ex 5 = Inr (1, True)"
    by code_simp
  show ?thesis
    using findCellOffsetByKey_lower_bound [where n = internal_ex and k = 25]
      findCellOffsetByKey_lower_bound [where m = leaf_ex and k = 5] i l e1 e2
    by blast
qed

section \<open>Row size validation\<close>

lemma find_loop_error:
  "(\<And>x e. ck x = Inl e \<Longrightarrow> e = RuntimePanic) \<Longrightarrow>
   find_loop ck offs k low high = Inl e \<Longrightarrow> e = RuntimePanic"
proof (induction ck offs k low high rule: find_loop.induct)
  case (1 ck offs k low high)
  show ?case
    using "1.prems"(2) "1.IH" "1.prems"(1)
    by (subst (asm) find_loop.simps)
       (auto simp: Let_def split: if_splits sum.splits)
qed

lemma cell_at_error: "cell_at cs i = Inl e \<Longrightarrow> e = RuntimePanic"
  by (auto simp: cell_at_def split: if_splits option.splits)

lemma leafNode_findCellOffsetByKey_error:
  "leafNode_findCellOffsetByKey n k = Inl e \<Longrightarrow> e = RuntimePanic"
  unfolding leafNode_findCellOffsetByKey_def
  by (erule find_loop_error [rotated])
     (auto simp: leafNode_cellKey_def dest: cell_at_error split: sum.splits)

text \<open>
  C7. On a value of more than 400 bytes \<open>insertCell\<close> and \<open>updateCell\<close> of a leaf return
  \<open>ErrRowTooLarge\<close> and the node is exactly as before the call; on a value of at most 400
  bytes neither returns \<open>ErrRowTooLarge\<close>.
\<close>

theorem rowTooLarge_before_mutation:
  "(length v > maxValueSize \<longrightarrow>
      leafNode_insertCell n offset k v = (Some ErrRowTooLarge, n) \<and>
      leafNode_updateCell n k v = (Some ErrRowTooLarge, n)) \<and>
   (length v \<le> maxValueSize \<longrightarrow>
      fst (leafNode_insertCell n offset k v) \<noteq> Some ErrRowTooLarge \<and>
      fst (leafNode_updateCell n k v) \<noteq> Some ErrRowTooLarge)"
proof (intro conjI impI)
  assume "length v > maxValueSize"
  then show "leafNode_insertCell n offset k v = (Some ErrRowTooLarge, n)"
    and "leafNode_updateCell n k v = (Some ErrRowTooLarge, n)"
    by (simp_all add: leafNode_insertCell_def leafNode_updateCell_def checkRowSizeLimit_def)
next
  assume le: "length v \<le> maxValueSize"
  then show "fst (leafNode_insertCell n offset k v) \<noteq> Some ErrRowTooLarge"
    by (simp add: leafNode_insertCell_def checkRowSizeLimit_def Let_def)
  show "fst (leafNode_updateCell n k v) \<noteq> Some ErrRowTooLarge"
    using le
    by (auto simp: leafNode_updateCell_def checkRowSizeLimit_def
        dest: leafNode_findCellOffsetByKey_error cell_at_error split: sum.splits prod.splits)
qed

theorem rowTooLarge_before_mutation_witness:
  "leafNode_insertCell leaf_ex 0 9 (replicate 401 0) = (Some ErrRowTooLarge, leaf_ex) \<and>
   leafNode_updateCell leaf_ex 5 (replicate 401 0) = (Some ErrRowTooLarge, leaf_ex) \<and>
   fst (leafNode_insertCell leaf_ex 0 9 (replicate 400 0)) \<noteq> Some ErrRowTooLarge \<and>
   fst (leafNode_updateCell leaf_ex 5 (replicate 400 0)) \<noteq> Some ErrRowTooLarge"
  using rowTooLarge_before_mutation [of "replicate 401 0" leaf_ex 0 9]
    rowTooLarge_before_mutation [of "replicate 400 0" leaf_ex 0 9]
    rowTooLarge_before_mutation [of "replicate 401 0" leaf_ex 0 5]
    rowTooLarge_before_mutation [of "replicate 400 0" leaf_ex 0 5]
  by (simp add: maxValueSize_def)

section \<open>Insertion into an internal node\<close>

lemma unat_succ_u32:
  fixes s :: u32
  assumes "unat s < L" "L < 2 ^ 32"
  shows "unat (s + 1) = unat s + 1"
proof -
  have "unat s + unat (1 :: u32) < 2 ^ LENGTH(32)" using assms by simp
  then show ?thesis by (simp add: unat_add_lem [THEN iffD1])
qed

lemma unat_of_nat_u16: "n < 2 ^ 16 \<Longrightarrow> unat (of_nat n :: u16) = n"
  by (simp add: unat_of_nat)

lemma open_slot_eq:
  fixes s :: u32
  assumes "unat s < length offs" "length offs < 2 ^ 32"
  shows "(open_slot offs s)[unat s := c] = take (unat s) offs @ [c] @ drop (unat s) offs"
proof -
  have "open_slot offs s = take (unat s) offs @ [offs ! unat s] @ drop (unat s) offs"
    using assms by (simp add: open_slot_def unat_succ_u32 [OF assms] take_Suc_conv_app_nth)
  then show ?thesis using assms by (simp add: list_update_append)
qed

lemma sorted_wrt_insert_at:
  fixes k :: "'a :: linorder"
  assumes "sorted_wrt (<) ks" "list_all (\<lambda>x. x < k) (take i ks)" "list_all (\<lambda>x. k < x) (drop i ks)"
  shows "sorted_wrt (<) (take i ks @ [k] @ drop i ks)"
proof -
  have "sorted_wrt (<) (take i ks @ drop i ks)" using assms(1) by simp
  then have a: "sorted_wrt (<) (take i ks)" and b: "sorted_wrt (<) (drop i ks)"
    by (simp_all only: sorted_wrt_append)
  have lo: "\<And>x. x \<in> set (take i ks) \<Longrightarrow> x < k" using assms(2) by (simp add: list_all_iff)
  have hi: "\<And>y. y \<in> set (drop i ks) \<Longrightarrow> k < y" using assms(3) by (simp add: list_all_iff)
  have cross: "\<And>x y. x \<in> set (take i ks) \<Longrightarrow> y \<in> set (drop i ks) \<Longrightarrow> x < y"
    using lo hi by (blast intro: less_trans)
  show ?thesis using a b lo hi cross by (simp add: sorted_wrt_append)
qed

lemma internal_slot_keys_eq:
  "internal_slot_keys n = map (\<lambda>off. ic_key (the (icells n ! unat off))) (offsets n)"
  by (simp add: internal_slot_keys_def slot_cells_def comp_def)

text \<open>
  C10. \<open>internalNode.insertCell(s, k, fo)\<close> at a slot \<open>s < len(offsets)\<close> of a node whose
  offsets all name cells (and whose cell array still fits the 16-bit offsets) returns
  with the new key \<open>k\<close> at slot \<open>s\<close> and the old keys around it in their order, so the
  keys stay strictly increasing when \<open>s\<close> came from \<open>findCellOffsetByKey\<close>; the child
  pointers are exchanged: the cell at slot \<open>s\<close> carries the pointer that the cell now at
  slot \<open>s + 1\<close> held before, and that cell carries the argument \<open>fo\<close>.
\<close>

theorem internalNode_insertCell_exchanges:
  assumes s: "unat s < length (offsets n)" and L: "length (offsets n) < 2 ^ 32"
    and ok: "slots_ok (icells n) (offsets n)" and C: "length (icells n) < 2 ^ 16"
  shows "\<exists>n'. internalNode_insertCell n s k fo = Inr n' \<and>
     offsets n' = take (unat s) (offsets n) @ [of_nat (length (icells n))] @ drop (unat s) (offsets n) \<and>
     slots_ok (icells n') (offsets n') \<and>
     internal_slot_keys n' =
       take (unat s) (internal_slot_keys n) @ [k] @ drop (unat s) (internal_slot_keys n) \<and>
     slot_cells (icells n') (offsets n') ! unat s =
       \<lparr>ic_key = k,
        ic_fileOffset = ic_fileOffset (slot_cells (icells n) (offsets n) ! unat s)\<rparr> \<and>
     slot_cells (icells n') (offsets n') ! (unat s + 1) =
       \<lparr>ic_key = ic_key (slot_cells (icells n) (offsets n) ! unat s), ic_fileOffset = fo\<rparr> \<and>
     (sorted_wrt (<) (internal_slot_keys n) \<and>
      internalNode_findCellOffsetByKey n k = Inr (int (unat s), False) \<longrightarrow>
        sorted_wrt (<) (internal_slot_keys n'))"
proof -
  define t where "t = unat s"
  define offs where "offs = offsets n"
  define cs where "cs = icells n"
  define c :: u16 where "c = of_nat (length cs)"
  define new where "new = \<lparr>ic_key = k, ic_fileOffset = fo\<rparr>"
  define j where "j = unat (offs ! t)"
  define old where "old = the (cs ! j)"
  have tL: "t < length offs" using s by (simp add: t_def offs_def)
  have s1: "unat (s + 1) = t + 1" using unat_succ_u32 [OF s L] by (simp add: t_def)
  have uc: "unat c = length cs" using C by (simp add: c_def cs_def unat_of_nat_u16)
  have okall: "\<And>off. off \<in> set offs \<Longrightarrow> unat off < length cs \<and> cs ! unat off \<noteq> None"
    using ok by (simp add: slots_ok_def list_all_iff offs_def cs_def)
  have jl: "j < length cs" and jsome: "cs ! j = Some old"
    using okall [of "offs ! t"] tL by (auto simp: j_def old_def)
  define offs2 where "offs2 = take t offs @ [c] @ drop t offs"
  have o2: "(open_slot offs s)[t := c] = offs2"
    using open_slot_eq [OF s L] by (simp add: t_def offs_def offs2_def)
  have len1: "length (open_slot offs s) = length offs + 1"
    using tL s1 by (simp add: open_slot_def t_def)
  have len2o: "length offs2 = length offs + 1" by (simp add: offs2_def)
  have o2t: "offs2 ! t = c" using tL by (simp add: offs2_def nth_append)
  have o2t1: "offs2 ! (t + 1) = offs ! t"
    using tL by (simp add: offs2_def nth_append)
  define cs1 where "cs1 = cs @ [Some new]"
  define cs2 where "cs2 = cs1[length cs := Some (new\<lparr>ic_fileOffset := ic_fileOffset old\<rparr>),
                        j := Some (old\<lparr>ic_fileOffset := fo\<rparr>)]"
  have swap: "swap_fileOffsets cs1 (length cs) j = Inr cs2"
    using jl jsome
    by (simp add: swap_fileOffsets_def cell_at_def cs1_def cs2_def nth_append new_def Let_def)
  define n' where "n' = n\<lparr>offsets := offs2, icells := cs2\<rparr>"
  have res: "internalNode_insertCell n s k fo = Inr n'"
    using tL len1 o2 s1 swap uc o2t o2t1 len2o
    unfolding internalNode_insertCell_def Let_def
    by (simp add: t_def [symmetric] offs_def [symmetric] cs_def [symmetric] c_def [symmetric]
        new_def [symmetric] cs1_def [symmetric] j_def [symmetric] n'_def)
  have len2: "length cs2 = length cs + 1" by (simp add: cs2_def cs1_def)
  have cs2_new: "cs2 ! length cs = Some (new\<lparr>ic_fileOffset := ic_fileOffset old\<rparr>)"
    using jl by (simp add: cs2_def cs1_def)
  have cs2_j: "cs2 ! j = Some (old\<lparr>ic_fileOffset := fo\<rparr>)"
    using jl by (simp add: cs2_def cs1_def)
  have cs2_key: "\<And>i. i < length cs \<Longrightarrow> cs ! i \<noteq> None \<Longrightarrow>
      cs2 ! i \<noteq> None \<and> ic_key (the (cs2 ! i)) = ic_key (the (cs ! i))"
    using jl jsome by (auto simp: cs2_def cs1_def nth_list_update nth_append)
  have ok2: "slots_ok cs2 offs2"
  proof -
    have "unat off < length cs2 \<and> cs2 ! unat off \<noteq> None" if "off \<in> set offs2" for off
    proof -
      from that have "off = c \<or> off \<in> set offs"
        by (auto simp: offs2_def dest: in_set_takeD in_set_dropD)
      then show ?thesis
      proof
        assume "off = c"
        then show ?thesis using uc len2 cs2_new by simp
      next
        assume "off \<in> set offs"
        then show ?thesis using okall [of off] cs2_key [of "unat off"] len2 by simp
      qed
    qed
    then show ?thesis by (simp add: slots_ok_def list_all_iff)
  qed
  have keyc: "ic_key (the (cs2 ! unat c)) = k" using cs2_new uc by (simp add: new_def)
  have keys_old: "map (\<lambda>off. ic_key (the (cs2 ! unat off))) offs = map (\<lambda>off. ic_key (the (cs ! unat off))) offs"
    using okall cs2_key by simp
  have keys: "internal_slot_keys n' =
       take t (internal_slot_keys n) @ [k] @ drop t (internal_slot_keys n)"
  proof -
    have "internal_slot_keys n' = map (\<lambda>off. ic_key (the (cs2 ! unat off))) offs2"
      by (simp add: internal_slot_keys_eq n'_def)
    also have "\<dots> = take t (map (\<lambda>off. ic_key (the (cs2 ! unat off))) offs) @ [k] @
                     drop t (map (\<lambda>off. ic_key (the (cs2 ! unat off))) offs)"
      using keyc by (simp add: offs2_def take_map drop_map)
    finally show ?thesis
      unfolding keys_old by (simp add: internal_slot_keys_eq offs_def cs_def)
  qed
  have at_s: "slot_cells cs2 offs2 ! t = \<lparr>ic_key = k, ic_fileOffset = ic_fileOffset old\<rparr>"
  proof -
    have "slot_cells cs2 offs2 ! t = the (cs2 ! unat (offs2 ! t))"
      using tL len2o by (simp add: slot_cells_def)
    then show ?thesis using o2t uc cs2_new by (simp add: new_def)
  qed
  have at_s1: "slot_cells cs2 offs2 ! (t + 1) = \<lparr>ic_key = ic_key old, ic_fileOffset = fo\<rparr>"
  proof -
    have "slot_cells cs2 offs2 ! (t + 1) = the (cs2 ! unat (offs2 ! (t + 1)))"
      using tL len2o by (simp add: slot_cells_def)
    then show ?thesis using o2t1 cs2_j by (simp add: j_def [symmetric])
  qed
  have oldc: "slot_cells (icells n) (offsets n) ! unat s = old"
    using tL by (simp add: slot_cells_def old_def j_def t_def offs_def cs_def)
  have srt: "sorted_wrt (<) (internal_slot_keys n')"
    if a: "sorted_wrt (<) (internal_slot_keys n)"
      and f: "internalNode_findCellOffsetByKey n k = Inr (int (unat s), False)"
  proof -
    have "search_post (internal_slot_keys n) k (internalNode_findCellOffsetByKey n k)"
      by (rule internalNode_find_search_post [OF ok a])
    then have "list_all (\<lambda>x. x < k) (take t (internal_slot_keys n))"
      and "list_all (\<lambda>x. k < x) (drop t (internal_slot_keys n))"
      unfolding f search_post_def by (simp_all add: t_def)
    then show ?thesis unfolding keys using a by (intro sorted_wrt_insert_at)
  qed
  have "internalNode_insertCell n s k fo = Inr n' \<and>
     offsets n' = take (unat s) (offsets n) @ [of_nat (length (icells n))] @ drop (unat s) (offsets n) \<and>
     slots_ok (icells n') (offsets n') \<and>
     internal_slot_keys n' =
       take (unat s) (internal_slot_keys n) @ [k] @ drop (unat s) (internal_slot_keys n) \<and>
     slot_cells (icells n') (offsets n') ! unat s =
       \<lparr>ic_key = k,
        ic_fileOffset = ic_fileOffset (slot_cells (icells n) (offsets n) ! unat s)\<rparr> \<and>
     slot_cells (icells n') (offsets n') ! (unat s + 1) =
       \<lparr>ic_key = ic_key (slot_cells (icells n) (offsets n) ! unat s), ic_fileOffset = fo\<rparr> \<and>
     (sorted_wrt (<) (internal_slot_keys n) \<and>
      internalNode_findCellOffsetByKey n k = Inr (int (unat s), False) \<longrightarrow>
        sorted_wrt (<) (internal_slot_keys n'))"
    using res ok2 keys at_s at_s1 srt oldc
    by (simp add: n'_def t_def offs_def cs_def c_def offs2_def)
  then show ?thesis by (rule exI)
qed

theorem internalNode_insertCell_exchanges_witness:
  "\<exists>n'. internalNode_insertCell internal_pre 0 10 100 = Inr n' \<and>
     offsets n' = [2, 0, 1] \<and>
     internal_slot_keys n' = [10, 20, 30] \<and>
     slot_cells (icells n') (offsets n') ! 0 = \<lparr>ic_key = 10, ic_fileOffset = 200\<rparr> \<and>
     slot_cells (icells n') (offsets n') ! 1 = \<lparr>ic_key = 20, ic_fileOffset = 100\<rparr> \<and>
     sorted_wrt (<) (internal_slot_keys n')"
proof -
  have pre: "internal_pre =
      empty_internalNode\<lparr>offsets := [0, 1],
        icells := [Some \<lparr>ic_key = 20, ic_fileOffset = 200\<rparr>,
                   Some \<lparr>ic_key = 30, ic_fileOffset = 300\<rparr>],
        rightOffset := 400\<rparr>"
    by (simp add: internal_pre_def internalNode_appendCell_def empty_internalNode_def)
  have h1: "unat (0 :: u32) < length (offsets internal_pre)"
    and h2: "length (offsets internal_pre) < 2 ^ 32"
    and h3: "slots_ok (icells internal_pre) (offsets internal_pre)"
    and h4: "length (icells internal_pre) < 2 ^ 16"
    by (simp_all add: pre empty_internalNode_def slots_ok_def)
  have ks: "internal_slot_keys internal_pre = [20, 30]"
    by (simp add: pre empty_internalNode_def internal_slot_keys_eq)
  have sc: "slot_cells (icells internal_pre) (offsets internal_pre) ! 0 =
      \<lparr>ic_key = 20, ic_fileOffset = 200\<rparr>"
    by (simp add: pre empty_internalNode_def slot_cells_def)
  have f: "internalNode_findCellOffsetByKey internal_pre 10 = Inr (int (unat (0 :: u32)), False)"
    unfolding pre by code_simp
  have srt: "sorted_wrt (<) (internal_slot_keys internal_pre)"
    by (simp add: ks)
  obtain n' where r: "internalNode_insertCell internal_pre 0 10 100 = Inr n'"
    and o: "offsets n' = take (unat (0 :: u32)) (offsets internal_pre) @
              [of_nat (length (icells internal_pre))] @
              drop (unat (0 :: u32)) (offsets internal_pre)"
    and k: "internal_slot_keys n' =
              take (unat (0 :: u32)) (internal_slot_keys internal_pre) @ [10] @
              drop (unat (0 :: u32)) (internal_slot_keys internal_pre)"
    and c0: "slot_cells (icells n') (offsets n') ! unat (0 :: u32) =
              \<lparr>ic_key = 10,
               ic_fileOffset =
                 ic_fileOffset (slot_cells (icells internal_pre) (offsets internal_pre) !
                   unat (0 :: u32))\<rparr>"
    and c1: "slot_cells (icells n') (offsets n') ! (unat (0 :: u32) + 1) =
              \<lparr>ic_key =
                 ic_key (slot_cells (icells internal_pre) (offsets internal_pre) !
                   unat (0 :: u32)),
               ic_fileOffset = 100\<rparr>"
    and s: "sorted_wrt (<) (internal_slot_keys n')"
    using internalNode_insertCell_exchanges [OF h1 h2 h3 h4, of 10 100] f srt by blast
  have "offsets n' = [2, 0, 1]"
    using o by (simp add: pre empty_internalNode_def)
  moreover have "internal_slot_keys n' = [10, 20, 30]"
    using k by (simp add: ks)
  moreover have "slot_cells (icells n') (offsets n') ! 0 = \<lparr>ic_key = 10, ic_fileOffset = 200\<rparr>"
    using c0 sc by simp
  moreover have "slot_cells (icells n') (offsets n') ! 1 = \<lparr>ic_key = 20, ic_fileOffset = 100\<rparr>"
    using c1 sc by simp
  ultimately show ?thesis using r s by blast
qed

section \<open>Leaf split\<close>

lemma slots_ok_Cons:
  "slots_ok cs (off # rest) \<longleftrightarrow>
     unat off < length cs \<and> cs ! unat off \<noteq> None \<and> slots_ok cs rest"
  by (simp add: slots_ok_def)

lemma slots_ok_drop: "slots_ok cs offs \<Longrightarrow> slots_ok cs (drop i offs)"
  by (auto simp: slots_ok_def list_all_iff dest: in_set_dropD)

lemma slots_ok_take: "slots_ok cs offs \<Longrightarrow> slots_ok cs (take i offs)"
  by (auto simp: slots_ok_def list_all_iff dest: in_set_takeD)

lemma slot_cells_take: "slot_cells cs (take i offs) = take i (slot_cells cs offs)"
  by (simp add: slot_cells_def take_map)

lemma slot_cells_drop: "slot_cells cs (drop i offs) = drop i (slot_cells cs offs)"
  by (simp add: slot_cells_def drop_map)

lemma map_upt_Suc: "map f [0 ..< Suc n] = f 0 # map (\<lambda>i. f (Suc i)) [0 ..< n]"
proof -
  have "[0 ..< Suc n] = 0 # map Suc [0 ..< n]"
    by (simp add: upt_conv_Cons map_Suc_upt del: upt_Suc)
  then show ?thesis by (simp add: comp_def del: upt_Suc)
qed

lemma leaf_split_loop_result:
  "slots_ok cs offs \<Longrightarrow>
   leaf_split_loop cs offs q =
     Inr (q\<lparr>offsets := offsets q @
               map (\<lambda>i. of_nat (length (offsets q) + i)) [0 ..< length offs],
             lcells := lcells q @ map (\<lambda>c. Some (leaf_copy c)) (slot_cells cs offs)\<rparr>)"
proof (induction offs arbitrary: q)
  case Nil
  then show ?case by (simp add: slot_cells_def)
next
  case (Cons off rest)
  from Cons.prems have c: "cell_at cs (unat off) = Inr (the (cs ! unat off))"
    and r: "slots_ok cs rest"
    by (auto simp: slots_ok_Cons cell_at_def)
  have "leaf_split_loop cs (off # rest) q =
      leaf_split_loop cs rest
        (leafNode_appendCell q (lc_key (the (cs ! unat off))) (lc_valueBytes (the (cs ! unat off))))"
    by (simp add: c)
  also have "\<dots> = Inr (q\<lparr>offsets := offsets q @
               map (\<lambda>i. of_nat (length (offsets q) + i)) [0 ..< length (off # rest)],
             lcells := lcells q @ map (\<lambda>c. Some (leaf_copy c)) (slot_cells cs (off # rest))\<rparr>)"
    unfolding Cons.IH [OF r]
    by (simp add: leafNode_appendCell_def slot_cells_def leaf_copy_def map_upt_Suc del: upt_Suc)
  finally show ?case .
qed

lemma slot_cells_fresh:
  assumes "length xs \<le> 2 ^ 16"
  shows "slot_cells (map Some xs) (map of_nat [0 ..< length xs] :: u16 list) = xs"
proof (rule nth_equalityI)
  show "length (slot_cells (map Some xs) (map of_nat [0 ..< length xs] :: u16 list)) = length xs"
    by (simp add: slot_cells_def)
next
  fix i assume "i < length (slot_cells (map Some xs) (map of_nat [0 ..< length xs] :: u16 list))"
  then have i: "i < length xs" by (simp add: slot_cells_def)
  then have "unat (of_nat i :: u16) = i" using assms by (simp add: unat_of_nat)
  then show "slot_cells (map Some xs) (map of_nat [0 ..< length xs] :: u16 list) ! i = xs ! i"
    using i by (simp add: slot_cells_def)
qed

lemma slots_ok_fresh:
  assumes "length xs \<le> 2 ^ 16"
  shows "slots_ok (map Some xs) (map of_nat [0 ..< length xs] :: u16 list)"
proof -
  have "unat (of_nat i :: u16) = i" if "i < length xs" for i
    using that assms by (simp add: unat_of_nat)
  then show ?thesis by (auto simp: slots_ok_def list_all_iff)
qed

text \<open>
  C4. \<open>leafNode.split\<close> of a leaf with \<open>n \<ge> 1\<close> slots, all naming cells, into a fresh page,
  with \<open>mid = n / 2\<close>: the old page keeps the slots \<open>[0, mid)\<close> and is otherwise unchanged,
  the new page holds the entries of the slots \<open>[mid, n)\<close> in order, the returned separator
  is \<open>cells[newPage.offsets[0]].key\<close>, which is the key of slot \<open>mid\<close> and, the keys being
  strictly increasing, the smallest key of the new page, and the multiset of (key, value)
  pairs of the two pages is that of the page before.
\<close>

theorem leafNode_split_halves:
  assumes ok: "slots_ok (lcells p) (offsets p)" and ne: "offsets p \<noteq> []"
    and bound: "length (offsets p) \<le> 2 ^ 16"
  shows "\<exists>k q. leafNode_split p empty_leafNode =
            Inr (k, p\<lparr>offsets := take (length (offsets p) div 2) (offsets p)\<rparr>, q) \<and>
     leaf_entries (p\<lparr>offsets := take (length (offsets p) div 2) (offsets p)\<rparr>) =
       take (length (offsets p) div 2) (leaf_entries p) \<and>
     slots_ok (lcells q) (offsets q) \<and>
     leaf_entries q = drop (length (offsets p) div 2) (leaf_entries p) \<and>
     k = lc_key (the (lcells q ! unat (offsets q ! 0))) \<and>
     k = leaf_slot_keys p ! (length (offsets p) div 2) \<and>
     mset (leaf_entries (p\<lparr>offsets := take (length (offsets p) div 2) (offsets p)\<rparr>)) +
       mset (leaf_entries q) = mset (leaf_entries p) \<and>
     (sorted_wrt (<) (leaf_slot_keys p) \<longrightarrow> list_all (\<lambda>x. k \<le> x) (leaf_slot_keys q))"
proof -
  define mid where "mid = length (offsets p) div 2"
  define moved where "moved = map leaf_copy (drop mid (slot_cells (lcells p) (offsets p)))"
  define q where "q = empty_leafNode\<lparr>offsets := map of_nat [0 ..< length moved],
                                        lcells := map Some moved\<rparr>"
  have midlt: "mid < length (offsets p)" using ne by (simp add: mid_def)
  have lm: "length moved = length (offsets p) - mid" by (simp add: moved_def slot_cells_def)
  have lm16: "length moved \<le> 2 ^ 16" using bound lm by simp
  have lm0: "0 < length moved" using lm midlt by simp
  have loop: "leaf_split_loop (lcells p) (drop mid (offsets p)) empty_leafNode = Inr q"
    using leaf_split_loop_result [OF slots_ok_drop [OF ok], of mid empty_leafNode]
    by (simp add: q_def moved_def empty_leafNode_def slot_cells_drop lm [unfolded moved_def]
        slot_cells_def drop_map comp_def)
  have sq: "slot_cells (lcells q) (offsets q) = moved"
    using slot_cells_fresh [OF lm16] by (simp add: q_def)
  have okq: "slots_ok (lcells q) (offsets q)"
    using slots_ok_fresh [OF lm16] by (simp add: q_def)
  have oq: "offsets q \<noteq> []" using lm0 by (simp add: q_def)
  have hd_cell: "cell_at (lcells q) (unat (offsets q ! 0)) = Inr (moved ! 0)"
    using slots_ok_cell_at [OF okq, of 0] oq sq by simp
  have the_cell: "the (lcells q ! unat (offsets q ! 0)) = moved ! 0"
    using hd_cell okq oq by (auto simp: cell_at_def split: if_splits option.splits)
  define k where "k = lc_key (moved ! 0)"
  have res: "leafNode_split p empty_leafNode = Inr (k, p\<lparr>offsets := take mid (offsets p)\<rparr>, q)"
    unfolding leafNode_split_def Let_def mid_def [symmetric]
    using loop oq hd_cell by (simp add: k_def)
  have ent_q: "leaf_entries q = drop mid (leaf_entries p)"
    by (simp add: leaf_entries_def sq moved_def drop_map leaf_copy_def comp_def)
  have ent_p: "leaf_entries (p\<lparr>offsets := take mid (offsets p)\<rparr>) = take mid (leaf_entries p)"
    by (simp add: leaf_entries_def slot_cells_take take_map)
  have keys_q: "leaf_slot_keys q = drop mid (leaf_slot_keys p)"
    by (simp add: leaf_slot_keys_def sq moved_def drop_map leaf_copy_def comp_def)
  have k_mid: "k = leaf_slot_keys p ! mid"
    using midlt lm0
    by (simp add: k_def moved_def leaf_slot_keys_def slot_cells_def leaf_copy_def)
  have ms: "mset (leaf_entries (p\<lparr>offsets := take mid (offsets p)\<rparr>)) + mset (leaf_entries q) =
      mset (leaf_entries p)"
    unfolding ent_q ent_p by (metis append_take_drop_id mset_append)
  have least: "list_all (\<lambda>x. k \<le> x) (leaf_slot_keys q)" if s: "sorted_wrt (<) (leaf_slot_keys p)"
  proof -
    have len: "length (leaf_slot_keys p) = length (offsets p)"
      by (simp add: leaf_slot_keys_def slot_cells_def)
    have "k \<le> leaf_slot_keys p ! (mid + i)" if "mid + i < length (leaf_slot_keys p)" for i
      using sorted_wrt_nth_less [OF s, of mid "mid + i"] that k_mid
      by (cases "i = 0") auto
    then show ?thesis by (simp add: list_all_length keys_q)
  qed
  have "leafNode_split p empty_leafNode =
            Inr (k, p\<lparr>offsets := take (length (offsets p) div 2) (offsets p)\<rparr>, q) \<and>
     leaf_entries (p\<lparr>offsets := take (length (offsets p) div 2) (offsets p)\<rparr>) =
       take (length (offsets p) div 2) (leaf_entries p) \<and>
     slots_ok (lcells q) (offsets q) \<and>
     leaf_entries q = drop (length (offsets p) div 2) (leaf_entries p) \<and>
     k = lc_key (the (lcells q ! unat (offsets q ! 0))) \<and>
     k = leaf_slot_keys p ! (length (offsets p) div 2) \<and>
     mset (leaf_entries (p\<lparr>offsets := take (length (offsets p) div 2) (offsets p)\<rparr>)) +
       mset (leaf_entries q) = mset (leaf_entries p) \<and>
     (sorted_wrt (<) (leaf_slot_keys p) \<longrightarrow> list_all (\<lambda>x. k \<le> x) (leaf_slot_keys q))"
    using res ent_p okq ent_q the_cell k_mid ms least
    by (simp add: mid_def [symmetric] k_def)
  then show ?thesis by blast
qed

theorem leafNode_split_halves_witness:
  "\<exists>k q. leafNode_split leaf_ex empty_leafNode = Inr (k, leaf_ex\<lparr>offsets := [1]\<rparr>, q) \<and>
     k = 5 \<and> leaf_entries (leaf_ex\<lparr>offsets := [1]\<rparr>) = [(1, [98])] \<and>
     leaf_entries q = [(5, [97])] \<and> list_all (\<lambda>x. k \<le> x) (leaf_slot_keys q)"
proof -
  have h1: "slots_ok (lcells leaf_ex) (offsets leaf_ex)"
    and h2: "offsets leaf_ex \<noteq> []" and h3: "length (offsets leaf_ex) \<le> 2 ^ 16"
    by (simp_all add: leaf_ex_def empty_leafNode_def slots_ok_def)
  have e: "leaf_entries leaf_ex = [(1, [98]), (5, [97])]"
    and ks: "leaf_slot_keys leaf_ex = [1, 5]"
    and o: "take (length (offsets leaf_ex) div 2) (offsets leaf_ex) = [1]"
    and m: "length (offsets leaf_ex) div 2 = 1"
    by (simp_all add: leaf_ex_def empty_leafNode_def leaf_entries_def leaf_slot_keys_def
        slot_cells_def)
  have srt: "sorted_wrt (<) (leaf_slot_keys leaf_ex)" by (simp add: ks)
  obtain k q where
    r: "leafNode_split leaf_ex empty_leafNode =
          Inr (k, leaf_ex\<lparr>offsets := take (length (offsets leaf_ex) div 2) (offsets leaf_ex)\<rparr>, q)"
    and ep: "leaf_entries
               (leaf_ex\<lparr>offsets := take (length (offsets leaf_ex) div 2) (offsets leaf_ex)\<rparr>) =
             take (length (offsets leaf_ex) div 2) (leaf_entries leaf_ex)"
    and eq: "leaf_entries q = drop (length (offsets leaf_ex) div 2) (leaf_entries leaf_ex)"
    and km: "k = leaf_slot_keys leaf_ex ! (length (offsets leaf_ex) div 2)"
    and least: "list_all (\<lambda>x. k \<le> x) (leaf_slot_keys q)"
    using leafNode_split_halves [OF h1 h2 h3] srt by blast
  have "leafNode_split leaf_ex empty_leafNode = Inr (k, leaf_ex\<lparr>offsets := [1]\<rparr>, q)"
    using r by (simp only: o)
  moreover have "k = 5" using km by (simp add: m ks)
  moreover have "leaf_entries (leaf_ex\<lparr>offsets := [1]\<rparr>) = [(1, [98])]"
    by (simp add: leaf_entries_def leaf_ex_def empty_leafNode_def slot_cells_def)
  moreover have "leaf_entries q = [(5, [97])]" using eq by (simp add: m e)
  ultimately show ?thesis using least by blast
qed


section \<open>Internal split\<close>

lemma internal_split_loop_result:
  "slots_ok cs offs \<Longrightarrow>
   internal_split_loop cs offs q =
     Inr (q\<lparr>offsets := offsets q @
               map (\<lambda>i. of_nat (length (offsets q) + i)) [0 ..< length offs],
             icells := icells q @ map Some (slot_cells cs offs)\<rparr>)"
proof (induction offs arbitrary: q)
  case Nil
  then show ?case by (simp add: slot_cells_def)
next
  case (Cons off rest)
  from Cons.prems have c: "cell_at cs (unat off) = Inr (the (cs ! unat off))"
    and r: "slots_ok cs rest"
    by (auto simp: slots_ok_Cons cell_at_def)
  have "internal_split_loop cs (off # rest) q =
      internal_split_loop cs rest
        (internalNode_appendCell q (ic_key (the (cs ! unat off)))
           (ic_fileOffset (the (cs ! unat off))))"
    by (simp add: c)
  also have "\<dots> = Inr (q\<lparr>offsets := offsets q @
               map (\<lambda>i. of_nat (length (offsets q) + i)) [0 ..< length (off # rest)],
             icells := icells q @ map Some (slot_cells cs (off # rest))\<rparr>)"
    unfolding Cons.IH [OF r]
    by (simp add: internalNode_appendCell_def slot_cells_def map_upt_Suc del: upt_Suc)
  finally show ?case .
qed

text \<open>What the code does in general: the promoted key and the new rightmost pointer of the
  old page come from \<open>cells[mid]\<close>.\<close>

lemma internalNode_split_result:
  assumes ok: "slots_ok (icells p) (offsets p)"
    and bound: "length (offsets p) \<le> 2 ^ 16"
    and c: "cell_at (icells p) (length (offsets p) div 2) = Inr c"
  shows "\<exists>q. internalNode_split p empty_internalNode =
            Inr (ic_key c,
                 p\<lparr>offsets := take (length (offsets p) div 2) (offsets p),
                   rightOffset := ic_fileOffset c\<rparr>, q) \<and>
     slots_ok (icells q) (offsets q) \<and>
     internal_entries q = drop (length (offsets p) div 2 + 1) (internal_entries p) \<and>
     rightOffset q = rightOffset p"
proof -
  define mid where "mid = length (offsets p) div 2"
  define moved where "moved = drop (mid + 1) (slot_cells (icells p) (offsets p))"
  define q where "q = empty_internalNode\<lparr>offsets := map of_nat [0 ..< length moved],
                                            icells := map Some moved,
                                            rightOffset := rightOffset p\<rparr>"
  have lm: "length moved = length (offsets p) - (mid + 1)" by (simp add: moved_def slot_cells_def)
  have lm16: "length moved \<le> 2 ^ 16" using bound lm by simp
  have loop: "internal_split_loop (icells p) (drop (mid + 1) (offsets p)) empty_internalNode =
      Inr (q\<lparr>rightOffset := 0\<rparr>)"
    using internal_split_loop_result [OF slots_ok_drop [OF ok], of "mid + 1" empty_internalNode]
    by (simp add: q_def moved_def empty_internalNode_def slot_cells_drop lm [unfolded moved_def]
        slot_cells_def drop_map comp_def)
  have sq: "slot_cells (icells q) (offsets q) = moved"
    using slot_cells_fresh [OF lm16] by (simp add: q_def)
  have okq: "slots_ok (icells q) (offsets q)"
    using slots_ok_fresh [OF lm16] by (simp add: q_def)
  have res: "internalNode_split p empty_internalNode =
      Inr (ic_key c, p\<lparr>offsets := take mid (offsets p), rightOffset := ic_fileOffset c\<rparr>, q)"
    unfolding internalNode_split_def Let_def mid_def [symmetric]
    using loop c
    by (simp add: mid_def [symmetric] internalNode_setRightMostKey_def q_def)
  have ent_q: "internal_entries q = drop (mid + 1) (internal_entries p)"
    by (simp add: internal_entries_def sq moved_def drop_map)
  have "internalNode_split p empty_internalNode =
            Inr (ic_key c,
                 p\<lparr>offsets := take (length (offsets p) div 2) (offsets p),
                   rightOffset := ic_fileOffset c\<rparr>, q) \<and>
     slots_ok (icells q) (offsets q) \<and>
     internal_entries q = drop (length (offsets p) div 2 + 1) (internal_entries p) \<and>
     rightOffset q = rightOffset p"
    using res okq ent_q by (simp add: mid_def [symmetric] q_def)
  then show ?thesis by blast
qed

text \<open>
  C1, at a node the operations build. \<open>internal_ex\<close> comes from \<open>appendCell\<close> twice and one
  \<open>insertCell\<close>, and holds the entries (10, 200), (20, 100), (30, 300) in slot order, with
  \<open>offsets = [2, 0, 1]\<close>. The median entry is (20, 100), but \<open>split\<close> reads \<open>p.cells[mid]\<close>
  where the loop above it reads \<open>p.cells[p.offsets[i]]\<close>: it promotes the key 30 and makes
  300 the rightmost pointer of the old page, so the key 20 and the child 100 are lost and
  the key 30 is both promoted and moved.
\<close>

theorem internalNode_split_reads_cells_mid:
  "internalNode_insertCell internal_pre 0 10 100 = Inr internal_ex \<and>
   internal_entries internal_ex = [(10, 200), (20, 100), (30, 300)] \<and>
   internalNode_split internal_ex empty_internalNode =
     Inr (30, internal_ex\<lparr>offsets := [2], rightOffset := 300\<rparr>,
          empty_internalNode\<lparr>offsets := [0],
            icells := [Some \<lparr>ic_key = 30, ic_fileOffset = 300\<rparr>], rightOffset := 400\<rparr>) \<and>
   internal_entries (internal_ex\<lparr>offsets := [2], rightOffset := 300\<rparr>) = [(10, 200)]"
proof (intro conjI)
  show "internalNode_insertCell internal_pre 0 10 100 = Inr internal_ex"
    by (simp add: internalNode_insertCell_def internal_pre_def internal_ex_def
        empty_internalNode_def internalNode_appendCell_def open_slot_def swap_fileOffsets_def
        cell_at_def Let_def)
  show "internal_entries internal_ex = [(10, 200), (20, 100), (30, 300)]"
    by (simp add: internal_entries_def internal_ex_def empty_internalNode_def slot_cells_def)
  show "internalNode_split internal_ex empty_internalNode =
     Inr (30, internal_ex\<lparr>offsets := [2], rightOffset := 300\<rparr>,
          empty_internalNode\<lparr>offsets := [0],
            icells := [Some \<lparr>ic_key = 30, ic_fileOffset = 300\<rparr>], rightOffset := 400\<rparr>)"
    by (simp add: internalNode_split_def internal_ex_def empty_internalNode_def cell_at_def
        internalNode_appendCell_def internalNode_setRightMostKey_def)
  show "internal_entries (internal_ex\<lparr>offsets := [2], rightOffset := 300\<rparr>) = [(10, 200)]"
    by (simp add: internal_entries_def internal_ex_def empty_internalNode_def slot_cells_def)
qed

text \<open>
  Where the cell of the median slot is \<open>cells[mid]\<close> itself, as in a node built by
  \<open>appendCell\<close> alone, the split is the one the contract describes.
\<close>

lemma internalNode_split_aligned:
  assumes ok: "slots_ok (icells p) (offsets p)" and ne: "offsets p \<noteq> []"
    and bound: "length (offsets p) \<le> 2 ^ 16"
    and al: "unat (offsets p ! (length (offsets p) div 2)) = length (offsets p) div 2"
  shows "\<exists>k p' q. internalNode_split p empty_internalNode = Inr (k, p', q) \<and>
     k = internal_slot_keys p ! (length (offsets p) div 2) \<and>
     rightOffset p' = snd (internal_entries p ! (length (offsets p) div 2)) \<and>
     internal_entries p' = take (length (offsets p) div 2) (internal_entries p) \<and>
     internal_entries q = drop (length (offsets p) div 2 + 1) (internal_entries p) \<and>
     rightOffset q = rightOffset p \<and>
     mset (internal_entries p') + {#(k, rightOffset p')#} + mset (internal_entries q) =
       mset (internal_entries p)"
proof -
  define mid where "mid = length (offsets p) div 2"
  define c where "c = slot_cells (icells p) (offsets p) ! mid"
  have midlt: "mid < length (offsets p)" using ne by (simp add: mid_def)
  have c: "cell_at (icells p) (length (offsets p) div 2) = Inr c"
    using slots_ok_cell_at [OF ok midlt] al by (simp add: mid_def c_def)
  obtain q where res: "internalNode_split p empty_internalNode =
            Inr (ic_key c, p\<lparr>offsets := take mid (offsets p), rightOffset := ic_fileOffset c\<rparr>, q)"
    and eq: "internal_entries q = drop (mid + 1) (internal_entries p)"
    and rq: "rightOffset q = rightOffset p"
    using internalNode_split_result [OF ok bound c] by (auto simp: mid_def)
  define p' where "p' = p\<lparr>offsets := take mid (offsets p), rightOffset := ic_fileOffset c\<rparr>"
  have ep: "internal_entries p' = take mid (internal_entries p)"
    by (simp add: internal_entries_def p'_def slot_cells_take take_map)
  have len: "length (internal_entries p) = length (offsets p)"
    by (simp add: internal_entries_def slot_cells_def)
  have em: "internal_entries p ! mid = (ic_key c, ic_fileOffset c)"
    using midlt by (simp add: internal_entries_def c_def slot_cells_def)
  have km: "internal_slot_keys p ! mid = ic_key c"
    using midlt by (simp add: internal_slot_keys_def c_def slot_cells_def)
  have "mset (take mid (internal_entries p) @ internal_entries p ! mid #
            drop (Suc mid) (internal_entries p)) = mset (internal_entries p)"
    using midlt len by (simp only: id_take_nth_drop [symmetric])
  then have "mset (internal_entries p) =
      mset (take mid (internal_entries p)) + {#internal_entries p ! mid#} +
      mset (drop (mid + 1) (internal_entries p))"
    by simp
  then have ms: "mset (internal_entries p') + {#(ic_key c, rightOffset p')#} + mset (internal_entries q) =
       mset (internal_entries p)"
    using ep eq em by (simp add: p'_def)
  have "internalNode_split p empty_internalNode = Inr (ic_key c, p', q) \<and>
     ic_key c = internal_slot_keys p ! (length (offsets p) div 2) \<and>
     rightOffset p' = snd (internal_entries p ! (length (offsets p) div 2)) \<and>
     internal_entries p' = take (length (offsets p) div 2) (internal_entries p) \<and>
     internal_entries q = drop (length (offsets p) div 2 + 1) (internal_entries p) \<and>
     rightOffset q = rightOffset p \<and>
     mset (internal_entries p') + {#(ic_key c, rightOffset p')#} + mset (internal_entries q) =
       mset (internal_entries p)"
    using res ep eq rq ms em km by (simp add: mid_def [symmetric] p'_def)
  then show ?thesis by blast
qed

section \<open>Leaf update\<close>

lemma leaf_slot_keys_length: "length (leaf_slot_keys n) = length (offsets n)"
  by (simp add: leaf_slot_keys_def slot_cells_def)

lemma leafNode_find_slot:
  assumes ok: "slots_ok (lcells n) (offsets n)" and srt: "sorted_wrt (<) (leaf_slot_keys n)"
    and i: "i < length (offsets n)" and k: "leaf_slot_keys n ! i = k"
  shows "leafNode_findCellOffsetByKey n k = Inr (int i, True)"
proof -
  have sp: "search_post (leaf_slot_keys n) k (leafNode_findCellOffsetByKey n k)"
    by (rule leafNode_find_search_post [OF ok srt])
  have mem: "k \<in> set (leaf_slot_keys n)"
    using i k by (metis leaf_slot_keys_length nth_mem)
  obtain j where r: "leafNode_findCellOffsetByKey n k = Inr (j, True)"
    and j0: "0 \<le> j" and jl: "j < int (length (leaf_slot_keys n))"
    and jk: "leaf_slot_keys n ! nat j = k"
    using sp mem by (auto simp: search_post_def split: sum.splits prod.splits if_splits)
  have "distinct (leaf_slot_keys n)"
    using srt by (simp add: strict_sorted_iff)
  moreover have "nat j < length (leaf_slot_keys n)" "i < length (leaf_slot_keys n)"
    using jl j0 i by (simp_all add: leaf_slot_keys_length)
  moreover have "leaf_slot_keys n ! nat j = leaf_slot_keys n ! i" using jk k by simp
  ultimately have "nat j = i"
    by (simp only: nth_eq_iff_index_eq)
  then show ?thesis using r j0 by simp
qed

text \<open>What the code does in general: it writes the cell whose index in \<open>cells\<close> is the slot.\<close>

lemma leafNode_updateCell_result:
  assumes ok: "slots_ok (lcells n) (offsets n)" and srt: "sorted_wrt (<) (leaf_slot_keys n)"
    and i: "i < length (offsets n)" and k: "leaf_slot_keys n ! i = k"
    and v: "length v \<le> maxValueSize" and c: "cell_at (lcells n) i = Inr c"
  shows "leafNode_updateCell n k v =
     (None, n\<lparr>lcells := (lcells n)[i := Some (c\<lparr>lc_valueBytes := v,
                                                 lc_valueSize := of_nat (length v)\<rparr>)]\<rparr>)"
  using v c
  by (simp add: leafNode_updateCell_def checkRowSizeLimit_def leafNode_find_slot [OF ok srt i k])

text \<open>
  C6, at a leaf the operations build. \<open>leaf_ex\<close> comes from two \<open>insertCell\<close> calls and
  holds (1, "b"), (5, "a") in slot order, with \<open>offsets = [1, 0]\<close>. \<open>updateCell(1, "z")\<close>
  finds the key at slot 0 and writes \<open>n.cells[0]\<close>, the cell of key 5, where
  \<open>findCellOffsetByKey\<close> reads \<open>n.cells[n.offsets[mid]]\<close>: it reports success, the cell of
  key 1 keeps its value and the cell of key 5 has lost its own.
\<close>

theorem leafNode_updateCell_writes_slot_index:
  "leafNode_insertCell (snd (leafNode_insertCell empty_leafNode 0 5 [97])) 0 1 [98] =
     (None, leaf_ex) \<and>
   leaf_entries leaf_ex = [(1, [98]), (5, [97])] \<and>
   leafNode_updateCell leaf_ex 1 [122] =
     (None, leaf_ex\<lparr>lcells :=
        [Some \<lparr>lc_key = 5, lc_valueSize = 1, lc_valueBytes = [122], lc_deleted = False\<rparr>,
         Some \<lparr>lc_key = 1, lc_valueSize = 1, lc_valueBytes = [98], lc_deleted = False\<rparr>]\<rparr>) \<and>
   leaf_entries (leaf_ex\<lparr>lcells :=
        [Some \<lparr>lc_key = 5, lc_valueSize = 1, lc_valueBytes = [122], lc_deleted = False\<rparr>,
         Some \<lparr>lc_key = 1, lc_valueSize = 1, lc_valueBytes = [98], lc_deleted = False\<rparr>]\<rparr>) =
     [(1, [98]), (5, [122])]"
proof (intro conjI)
  show "leafNode_insertCell (snd (leafNode_insertCell empty_leafNode 0 5 [97])) 0 1 [98] =
     (None, leaf_ex)"
    by (simp add: leafNode_insertCell_def checkRowSizeLimit_def maxValueSize_def leaf_ex_def
        empty_leafNode_def open_slot_def Let_def)
  show "leaf_entries leaf_ex = [(1, [98]), (5, [97])]"
    by (simp add: leaf_entries_def leaf_ex_def empty_leafNode_def slot_cells_def)
  show "leafNode_updateCell leaf_ex 1 [122] =
     (None, leaf_ex\<lparr>lcells :=
        [Some \<lparr>lc_key = 5, lc_valueSize = 1, lc_valueBytes = [122], lc_deleted = False\<rparr>,
         Some \<lparr>lc_key = 1, lc_valueSize = 1, lc_valueBytes = [98], lc_deleted = False\<rparr>]\<rparr>)"
    by (simp add: leafNode_updateCell_def checkRowSizeLimit_def maxValueSize_def leaf_ex_def
        empty_leafNode_def leafNode_findCellOffsetByKey_def find_loop.simps leafNode_cellKey_def
        cell_at_def)
  show "leaf_entries (leaf_ex\<lparr>lcells :=
        [Some \<lparr>lc_key = 5, lc_valueSize = 1, lc_valueBytes = [122], lc_deleted = False\<rparr>,
         Some \<lparr>lc_key = 1, lc_valueSize = 1, lc_valueBytes = [98], lc_deleted = False\<rparr>]\<rparr>) =
     [(1, [98]), (5, [122])]"
    by (simp add: leaf_entries_def leaf_ex_def empty_leafNode_def slot_cells_def)
qed

section \<open>Page size\<close>

lemma length_le_bytes [simp]: "length (le_bytes n x) = n"
  by (induction n arbitrary: x) simp_all

lemma length_put [simp]:
  "length (put_u16 a) = 2" "length (put_u32 b) = 4" "length (put_u64 c) = 8"
  "length (put_bool d) = 1"
  by (simp_all add: put_u16_def put_u32_def put_u64_def put_bool_def)

lemma length_concat_put_u16 [simp]: "length (concat (map put_u16 offs)) = 2 * length offs"
  by (induction offs) simp_all

lemma internal_footer_length:
  "slots_ok cs offs \<Longrightarrow> \<exists>bs. internal_footer cs offs = Inr bs \<and> length bs = 12 * length offs"
proof (induction offs)
  case Nil
  then show ?case by simp
next
  case (Cons off rest)
  from Cons.prems have c: "cell_at cs (unat off) = Inr (the (cs ! unat off))"
    and r: "slots_ok cs rest"
    by (auto simp: slots_ok_Cons cell_at_def)
  from Cons.IH [OF r] obtain bs where "internal_footer cs rest = Inr bs" "length bs = 12 * length rest"
    by blast
  then show ?case by (simp add: c)
qed

lemma leaf_footer_length:
  "slots_ok cs offs \<Longrightarrow>
   list_all (\<lambda>c. length (lc_valueBytes c) \<le> maxValueSize) (slot_cells cs offs) \<Longrightarrow>
   \<exists>bs. leaf_footer cs offs = Inr bs \<and> length bs \<le> 409 * length offs"
proof (induction offs)
  case Nil
  then show ?case by simp
next
  case (Cons off rest)
  from Cons.prems have c: "cell_at cs (unat off) = Inr (the (cs ! unat off))"
    and r: "slots_ok cs rest"
    and v: "length (lc_valueBytes (the (cs ! unat off))) \<le> 400"
    and vr: "list_all (\<lambda>c. length (lc_valueBytes c) \<le> maxValueSize) (slot_cells cs rest)"
    by (auto simp: slots_ok_Cons cell_at_def slot_cells_def maxValueSize_def)
  from Cons.IH [OF r vr] obtain bs where "leaf_footer cs rest = Inr bs" "length bs \<le> 409 * length rest"
    by blast
  then show ?case using v by (simp add: c)
qed

lemma unat_of_int_u16:
  assumes "0 \<le> x" "x < 65536"
  shows "unat (of_int x :: u16) = nat x"
proof -
  have "(of_int x :: u16) = of_nat (nat x)" using assms by simp
  moreover have "nat x < 2 ^ 16" using assms by simp
  ultimately show ?thesis by (simp add: unat_of_nat)
qed

lemma unat_of_nat_u32: "n < 2 ^ 32 \<Longrightarrow> unat (of_nat n :: u32) = n"
  by (simp add: unat_of_nat)

lemma internalNode_encode_length:
  assumes ok: "slots_ok (icells n) (offsets n)" and le: "length (offsets n) \<le> maxInternalNodeCells"
  shows "\<exists>buf. internalNode_encode n = Inr buf \<and> length buf = pageSize"
proof -
  have l290: "length (offsets n) \<le> 290"
    using le by (simp add: maxInternalNodeCells_def pageSize_def internalNodeHeaderSize_def
        offsetElemSize_def internalNodeCellSize_def)
  then have cc: "unat (of_nat (length (offsets n)) :: u32) = length (offsets n)"
    by (simp add: unat_of_nat_u32)
  obtain ft where ft: "internal_footer (icells n) (offsets n) = Inr ft"
    and lft: "length ft = 12 * length (offsets n)"
    using internal_footer_length [OF ok] by blast
  define x where "x = 4096 - int (29 + 2 * length (offsets n)) - int (length ft) - 2"
  have x0: "0 \<le> x" and x1: "x < 65536" using l290 lft by (simp_all add: x_def)
  have ux: "unat (of_int x :: u16) = nat x" by (rule unat_of_int_u16 [OF x0 x1])
  have tot: "29 + 2 * length (offsets n) + 2 + nat x + length ft = 4096"
    using x0 by (simp add: x_def)
  show ?thesis
    unfolding internalNode_encode_def Let_def cc
    using ft ux tot by (simp add: pageSize_def x_def)
qed

lemma leafNode_encode_length:
  assumes ok: "slots_ok (lcells n) (offsets n)" and le: "length (offsets n) \<le> maxLeafNodeCells"
    and vs: "list_all (\<lambda>c. length (lc_valueBytes c) \<le> maxValueSize)
               (slot_cells (lcells n) (offsets n))"
  shows "\<exists>buf. leafNode_encode n = Inr buf \<and> length buf = pageSize"
proof -
  have l9: "length (offsets n) \<le> 9"
    using le by (simp add: maxLeafNodeCells_def pageSize_def leafNodeHeaderSize_def
        offsetElemSize_def leafNodeCellSize_def maxValueSize_def)
  then have cc: "unat (of_nat (length (offsets n)) :: u32) = length (offsets n)"
    by (simp add: unat_of_nat_u32)
  obtain ft where ft: "leaf_footer (lcells n) (offsets n) = Inr ft"
    and lft: "length ft \<le> 409 * length (offsets n)"
    using leaf_footer_length [OF ok vs] by blast
  define x where "x = 4096 - int (39 + 2 * length (offsets n)) - int (length ft) - 2"
  have x0: "0 \<le> x" and x1: "x < 65536" using l9 lft by (simp_all add: x_def)
  have ux: "unat (of_int x :: u16) = nat x" by (rule unat_of_int_u16 [OF x0 x1])
  have tot: "39 + 2 * length (offsets n) + 2 + nat x + length ft = 4096"
    using x0 by (simp add: x_def)
  show ?thesis
    unfolding leafNode_encode_def Let_def cc
    using ft ux tot by (simp add: pageSize_def x_def)
qed

text \<open>
  C3. A node whose offsets all name cells, with at most the maximal number of slots of
  its type and, in a leaf, no value longer than 400 bytes, is encoded: \<open>encode\<close> returns a
  buffer, of exactly 4096 bytes, and does not reach its panic.
\<close>

theorem encode_page_size:
  "fits_page N \<Longrightarrow> \<exists>buf. btree_encode N = Inr buf \<and> length buf = pageSize"
  by (cases N) (simp_all add: internalNode_encode_length leafNode_encode_length)

theorem encode_page_size_witness:
  "(\<exists>buf. btree_encode (Leaf leaf_ex) = Inr buf \<and> length buf = 4096) \<and>
   (\<exists>buf. btree_encode (Internal internal_ex) = Inr buf \<and> length buf = 4096)"
proof -
  have "fits_page (Leaf leaf_ex)"
    by (simp add: leaf_ex_def empty_leafNode_def slots_ok_def slot_cells_def maxLeafNodeCells_def
        pageSize_def leafNodeHeaderSize_def offsetElemSize_def leafNodeCellSize_def
        maxValueSize_def)
  moreover have "fits_page (Internal internal_ex)"
    by (simp add: internal_ex_def empty_internalNode_def slots_ok_def maxInternalNodeCells_def
        pageSize_def internalNodeHeaderSize_def offsetElemSize_def internalNodeCellSize_def)
  ultimately show ?thesis
    using encode_page_size [of "Leaf leaf_ex"] encode_page_size [of "Internal internal_ex"]
    by (simp add: pageSize_def)
qed

section \<open>The persistent header\<close>

lemma unat_byte_mod: "unat (of_nat (x mod 256) :: byte) = x mod 256"
  by (simp add: unat_of_nat)

lemma le_nat_le_bytes: "le_nat (le_bytes n x) = x mod 256 ^ n"
proof (induction n arbitrary: x)
  case 0
  then show ?case by simp
next
  case (Suc n)
  have "x mod (256 * 256 ^ n) = 256 * (x div 256 mod 256 ^ n) + x mod 256"
    by (rule mod_mult2_eq)
  then show ?case by (simp add: Suc.IH unat_byte_mod)
qed

lemma get_put_u16: "(of_nat (le_nat (put_u16 w)) :: u16) = w"
proof -
  have "unat w < 2 ^ 16" using unsigned_less [of w] by simp
  then have "unat w mod 256 ^ 2 = unat w" by simp
  then show ?thesis by (simp add: put_u16_def le_nat_le_bytes)
qed

lemma get_put_u32: "(of_nat (le_nat (put_u32 w)) :: u32) = w"
proof -
  have "unat w < 2 ^ 32" using unsigned_less [of w] by simp
  then have "unat w mod 256 ^ 4 = unat w" by simp
  then show ?thesis by (simp add: put_u32_def le_nat_le_bytes)
qed

lemma get_put_u64: "(of_nat (le_nat (put_u64 w)) :: u64) = w"
proof -
  have "unat w < 2 ^ 64" using unsigned_less [of w] by simp
  then have "unat w mod 256 ^ 8 = unat w" by simp
  then show ?thesis by (simp add: put_u64_def le_nat_le_bytes)
qed

lemma le_bytes_add: "le_bytes (m + n) x = le_bytes m x @ le_bytes n (x div 256 ^ m)"
  by (induction m arbitrary: x) (simp_all add: div_mult2_eq)

lemma le_bytes_2: "le_bytes 2 x = [of_nat (x mod 256), of_nat (x div 256 mod 256)]"
  by (simp add: numeral_2_eq_2)

lemma le_bytes_4: "le_bytes 4 x = le_bytes 2 x @ le_bytes 2 (x div 65536)"
  using le_bytes_add [of 2 2 x] by simp

lemma le_bytes_8: "le_bytes 8 x = le_bytes 4 x @ le_bytes 4 (x div 4294967296)"
  using le_bytes_add [of 4 4 x] by simp

lemma file_ReadFull_prefix:
  "fpos f = a \<Longrightarrow> a \<le> length (fdata f) \<Longrightarrow> drop a (fdata f) = bs @ rest \<Longrightarrow>
   file_ReadFull f (length bs) = (Inr bs, f\<lparr>fpos := a + length bs\<rparr>)"
  by (simp add: file_ReadFull_def Let_def)

lemma header_bytes_length: "length (header_bytes s) = 28"
  by (simp add: header_bytes_def)

lemma fileStore_open_header:
  assumes d: "fdata fl = header_bytes s @ rest"
  shows "\<exists>t. fileStore_open (newFileStore fl) = (None, t) \<and>
     lastKey t = lastKey s \<and> pageTableRoot t = pageTableRoot s \<and>
     nextFreeOffset t = nextFreeOffset s \<and> f_nextLSN t = f_nextLSN s"
proof -
  define f0 where "f0 = fl\<lparr>fpos := 0\<rparr>"
  define b1 where "b1 = put_u32 (lastKey s)"
  define b2 where "b2 = put_u64 (pageTableRoot s)"
  define b3 where "b3 = put_u64 (nextFreeOffset s)"
  define b4 where "b4 = put_u64 (f_nextLSN s)"
  have lens: "length b1 = 4" "length b2 = 8" "length b3 = 8" "length b4 = 8"
    by (simp_all add: b1_def b2_def b3_def b4_def)
  have data: "fdata f0 = b1 @ b2 @ b3 @ b4 @ rest"
    using d by (simp add: f0_def header_bytes_def b1_def b2_def b3_def b4_def)
  have r1: "file_ReadFull f0 4 = (Inr b1, f0\<lparr>fpos := 4\<rparr>)"
    using file_ReadFull_prefix [of f0 0 b1 "b2 @ b3 @ b4 @ rest"] data lens
    by (simp add: f0_def)
  have r2: "file_ReadFull (f0\<lparr>fpos := 4\<rparr>) 8 = (Inr b2, f0\<lparr>fpos := 12\<rparr>)"
    using file_ReadFull_prefix [of "f0\<lparr>fpos := 4\<rparr>" 4 b2 "b3 @ b4 @ rest"] data lens
    by simp
  have r3: "file_ReadFull (f0\<lparr>fpos := 12\<rparr>) 8 = (Inr b3, f0\<lparr>fpos := 20\<rparr>)"
    using file_ReadFull_prefix [of "f0\<lparr>fpos := 12\<rparr>" 12 b3 "b4 @ rest"] data lens
    by simp
  have r4: "file_ReadFull (f0\<lparr>fpos := 20\<rparr>) 8 = (Inr b4, f0\<lparr>fpos := 28\<rparr>)"
    using file_ReadFull_prefix [of "f0\<lparr>fpos := 20\<rparr>" 20 b4 rest] data lens
    by simp
  show ?thesis
    unfolding fileStore_open_def
    using r1 r2 r3 r4
    by (simp add: newFileStore_def f0_def [symmetric] b1_def b2_def b3_def b4_def
        get_put_u32 get_put_u64)
qed

text \<open>
  C9. A \<open>save\<close> that succeeds has written, at offset 0 and as its one write, the 28 bytes
  \<open>lastKey\<close> (4), \<open>pageTableRoot\<close> (8), \<open>nextFreeOffset\<close> (8), \<open>_nextLSN\<close> (8), each little
  endian, and \<open>open\<close> on a store newly made over the file reads the four fields back with
  the values they had in the store that was saved.
\<close>

theorem header_round_trip:
  assumes sv: "fileStore_save s = (None, s')"
  shows "length (header_bytes s) = 28 \<and>
     take 28 (fdata (fs_file s')) = header_bytes s \<and>
     wlog (fs_file s') = wlog (fs_file s) @ [(0, header_bytes s, True)] \<and>
     (\<exists>t. fileStore_open (newFileStore (fs_file s')) = (None, t) \<and>
        lastKey t = lastKey s \<and> pageTableRoot t = pageTableRoot s \<and>
        nextFreeOffset t = nextFreeOffset s \<and> f_nextLSN t = f_nextLSN s)"
proof -
  have w: "fdata (fs_file s') = header_bytes s @ drop 28 (fdata (fs_file s))"
    and l: "wlog (fs_file s') = wlog (fs_file s) @ [(0, header_bytes s, True)]"
    using sv
    by (auto simp: fileStore_save_def file_WriteAt_def pwrite_def header_bytes_length
        split: list.splits bool.splits if_splits)
  have "take 28 (fdata (fs_file s')) = header_bytes s"
    by (simp add: w header_bytes_length)
  then show ?thesis
    using fileStore_open_header [OF w] l by (simp add: header_bytes_length)
qed

theorem header_round_trip_witness:
  "length (header_bytes store_ex) = 28 \<and>
   (\<exists>s' t. fileStore_save store_ex = (None, s') \<and>
      fdata (fs_file s') = [7, 0, 0, 0, 0, 16, 0, 0, 0, 0, 0, 0, 0, 48, 0, 0, 0, 0, 0, 0,
                            3, 0, 0, 0, 0, 0, 0, 0] \<and>
      fileStore_open (newFileStore (fs_file s')) = (None, t) \<and>
      lastKey t = 7 \<and> pageTableRoot t = 4096 \<and> nextFreeOffset t = 12288 \<and> f_nextLSN t = 3)"
proof -
  have hb: "header_bytes store_ex =
      [7, 0, 0, 0, 0, 16, 0, 0, 0, 0, 0, 0, 0, 48, 0, 0, 0, 0, 0, 0, 3, 0, 0, 0, 0, 0, 0, 0]"
    by (simp add: header_bytes_def store_ex_def newFileStore_def put_u32_def put_u64_def
        le_bytes_8 le_bytes_4 le_bytes_2)
  define s' where "s' = store_ex\<lparr>fs_file :=
      \<lparr>fdata = header_bytes store_ex, fpos = 0, faults = [],
       wlog = [(0, header_bytes store_ex, True)]\<rparr>\<rparr>"
  have sv: "fileStore_save store_ex = (None, s')"
    by (simp add: fileStore_save_def file_WriteAt_def pwrite_def s'_def store_ex_def
        newFileStore_def)
  have fd: "fdata (fs_file s') = header_bytes store_ex" by (simp add: s'_def)
  have vals: "lastKey store_ex = 7" "pageTableRoot store_ex = 4096"
    "nextFreeOffset store_ex = 12288" "f_nextLSN store_ex = 3"
    by (simp_all add: store_ex_def newFileStore_def)
  obtain t where o: "fileStore_open (newFileStore (fs_file s')) = (None, t)"
    and f: "lastKey t = lastKey store_ex" "pageTableRoot t = pageTableRoot store_ex"
      "nextFreeOffset t = nextFreeOffset store_ex" "f_nextLSN t = f_nextLSN store_ex"
    using header_round_trip [OF sv] by blast
  have "fileStore_save store_ex = (None, s') \<and>
      fdata (fs_file s') = [7, 0, 0, 0, 0, 16, 0, 0, 0, 0, 0, 0, 0, 48, 0, 0, 0, 0, 0, 0,
                            3, 0, 0, 0, 0, 0, 0, 0] \<and>
      fileStore_open (newFileStore (fs_file s')) = (None, t) \<and>
      lastKey t = 7 \<and> pageTableRoot t = 4096 \<and> nextFreeOffset t = 12288 \<and> f_nextLSN t = 3"
    using sv o f by (simp only: fd hb vals)
  then show ?thesis using hb header_bytes_length by metis
qed

section \<open>Encode and decode\<close>

lemma bind_res_simps [simp]:
  "bind_res (Inr x) f = f x" "bind_res (Inl e) f = Inl e"
  by (simp_all add: bind_res_def)

lemma read_full_append: "length bs = n \<Longrightarrow> read_full n (bs @ rest) = Inr (bs, rest)"
  by (simp add: read_full_def)

lemma read_u8_Cons: "read_u8 (b # rest) = Inr (b, rest)"
  using read_full_append [of "[b]" 1 rest] by (simp add: read_u8_def)

lemma read_u16_put: "read_u16 (put_u16 w @ rest) = Inr (w, rest)"
  by (simp add: read_u16_def read_full_append get_put_u16)

lemma read_u32_put: "read_u32 (put_u32 w @ rest) = Inr (w, rest)"
  by (simp add: read_u32_def read_full_append get_put_u32)

lemma read_u64_put: "read_u64 (put_u64 w @ rest) = Inr (w, rest)"
  by (simp add: read_u64_def read_full_append get_put_u64)

lemma read_bool_put: "read_bool (put_bool b @ rest) = Inr (b, rest)"
  using read_full_append [of "put_bool b" 1 rest] by (simp add: read_bool_def put_bool_def)

lemma read_offsets_put:
  "read_offsets (length ws) (concat (map put_u16 ws) @ rest) acc = Inr (acc @ ws, rest)"
proof (induction ws arbitrary: acc)
  case Nil
  then show ?case by simp
next
  case (Cons w ws)
  show ?case using Cons.IH [of "acc @ [w]"] by (simp add: read_u16_put)
qed

lemma buffer_Read_append:
  "length v = n \<Longrightarrow> buffer_Read n (v @ rest) = Inr (v, rest)"
  by (auto simp: buffer_Read_def)

lemma leaf_read_cells_footer:
  "slots_ok cs offs \<Longrightarrow>
   list_all (\<lambda>c. unat (lc_valueSize c) = length (lc_valueBytes c)) (slot_cells cs offs) \<Longrightarrow>
   leaf_footer cs offs = Inr ft \<Longrightarrow>
   leaf_read_cells offs ft acc = scatter offs (slot_cells cs offs) acc"
proof (induction offs arbitrary: ft acc)
  case Nil
  then show ?case by (simp add: slot_cells_def)
next
  case (Cons off rest)
  define c where "c = the (cs ! unat off)"
  from Cons.prems have ca: "cell_at cs (unat off) = Inr c"
    and r: "slots_ok cs rest"
    and vs: "unat (lc_valueSize c) = length (lc_valueBytes c)"
    and vr: "list_all (\<lambda>c. unat (lc_valueSize c) = length (lc_valueBytes c)) (slot_cells cs rest)"
    by (auto simp: slots_ok_Cons cell_at_def slot_cells_def c_def)
  from Cons.prems(3) ca obtain ft' where f': "leaf_footer cs rest = Inr ft'"
    and ft: "ft = put_u32 (lc_key c) @ put_bool (lc_deleted c) @ put_u32 (lc_valueSize c) @
                  lc_valueBytes c @ ft'"
    by (auto split: sum.splits)
  have sc: "slot_cells cs (off # rest) = c # slot_cells cs rest"
    by (simp add: slot_cells_def c_def)
  have cell: "\<lparr>lc_key = lc_key c, lc_valueSize = lc_valueSize c, lc_valueBytes = lc_valueBytes c,
               lc_deleted = lc_deleted c\<rparr> = c"
    by simp
  show ?case
    unfolding ft sc
    using Cons.IH [OF r vr f']
    by (simp add: read_u32_put read_bool_put buffer_Read_append vs cell)
qed

lemma scatter_panic:
  "length cs = length offs \<Longrightarrow> \<not> list_all (\<lambda>off. unat off < length acc) offs \<Longrightarrow>
   scatter offs cs acc = Inl RuntimePanic"
proof (induction offs cs acc rule: scatter.induct)
  case (1 cs acc)
  then show ?case by simp
next
  case (2 off offs acc)
  then show ?case by simp
next
  case (3 off offs c cs acc)
  then show ?case by (cases "unat off < length acc") simp_all
qed

lemma scatter_ok:
  "length cs = length offs \<Longrightarrow> list_all (\<lambda>off. unat off < length acc) offs \<Longrightarrow>
   distinct (map unat offs) \<Longrightarrow>
   \<exists>acc'. scatter offs cs acc = Inr acc' \<and> length acc' = length acc \<and>
     slot_cells acc' offs = cs \<and> slots_ok acc' offs \<and>
     (\<forall>j. j \<notin> unat ` set offs \<longrightarrow> acc' ! j = acc ! j)"
proof (induction offs cs acc rule: scatter.induct)
  case (1 cs acc)
  then show ?case by (simp add: slot_cells_def slots_ok_def)
next
  case (2 off offs acc)
  then show ?case by simp
next
  case (3 off offs c cs acc)
  from "3.prems" have lt: "unat off < length acc"
    and len: "length cs = length offs"
    and all: "list_all (\<lambda>o'. unat o' < length (acc[unat off := Some c])) offs"
    and d: "distinct (map unat offs)" and notin: "unat off \<notin> unat ` set offs"
    by simp_all
  from "3.IH" [OF lt len all d] obtain acc' where
    s: "scatter offs cs (acc[unat off := Some c]) = Inr acc'"
    and l: "length acc' = length acc"
    and sc: "slot_cells acc' offs = cs" and ok: "slots_ok acc' offs"
    and keep: "\<forall>j. j \<notin> unat ` set offs \<longrightarrow> acc' ! j = (acc[unat off := Some c]) ! j"
    by auto
  have at: "acc' ! unat off = Some c" using keep notin lt by simp
  have "scatter (off # offs) (c # cs) acc = Inr acc'" using lt s by simp
  moreover have "slot_cells acc' (off # offs) = c # cs"
    using sc at by (simp add: slot_cells_def)
  moreover have "slots_ok acc' (off # offs)"
    using ok at lt l by (simp add: slots_ok_Cons)
  moreover have "\<forall>j. j \<notin> unat ` set (off # offs) \<longrightarrow> acc' ! j = acc ! j"
    using keep by auto
  ultimately show ?case using l by blast
qed

lemma leafNode_encode_layout:
  assumes ok: "slots_ok (lcells n) (offsets n)" and le: "length (offsets n) \<le> maxLeafNodeCells"
    and vs: "list_all (\<lambda>c. length (lc_valueBytes c) \<le> maxValueSize)
               (slot_cells (lcells n) (offsets n))"
  shows "\<exists>ft fs. leaf_footer (lcells n) (offsets n) = Inr ft \<and>
     leafNode_encode n =
       Inr ([LeafNode] @ put_u64 (fileOffset n) @ put_u64 (lastLSN n) @
            put_bool (hasLSib n) @ put_bool (hasRSib n) @
            put_u64 (lSibFileOffset n) @ put_u64 (rSibFileOffset n) @
            put_u32 (of_nat (length (offsets n))) @ concat (map put_u16 (offsets n)) @
            put_u16 fs @ replicate (unat fs) 0 @ ft)"
proof -
  have l9: "length (offsets n) \<le> 9"
    using le by (simp add: maxLeafNodeCells_def pageSize_def leafNodeHeaderSize_def
        offsetElemSize_def leafNodeCellSize_def maxValueSize_def)
  then have cc: "unat (of_nat (length (offsets n)) :: u32) = length (offsets n)"
    by (simp add: unat_of_nat_u32)
  obtain ft where ft: "leaf_footer (lcells n) (offsets n) = Inr ft"
    and lft: "length ft \<le> 409 * length (offsets n)"
    using leaf_footer_length [OF ok vs] by blast
  define x where "x = 4096 - int (39 + 2 * length (offsets n)) - int (length ft) - 2"
  have x0: "0 \<le> x" and x1: "x < 65536" using l9 lft by (simp_all add: x_def)
  have ux: "unat (of_int x :: u16) = nat x" by (rule unat_of_int_u16 [OF x0 x1])
  have tot: "39 + 2 * length (offsets n) + 2 + nat x + length ft = 4096"
    using x0 by (simp add: x_def)
  have "leafNode_encode n =
       Inr ([LeafNode] @ put_u64 (fileOffset n) @ put_u64 (lastLSN n) @
            put_bool (hasLSib n) @ put_bool (hasRSib n) @
            put_u64 (lSibFileOffset n) @ put_u64 (rSibFileOffset n) @
            put_u32 (of_nat (length (offsets n))) @ concat (map put_u16 (offsets n)) @
            put_u16 (of_int x) @ replicate (unat (of_int x :: u16)) 0 @ ft)"
    unfolding leafNode_encode_def Let_def cc
    using ft ux tot by (simp add: pageSize_def x_def)
  with ft show ?thesis by blast
qed

lemma leafNode_decode_layout:
  assumes cc: "unat cc = length offs"
  shows "leafNode_decode empty_leafNode
       ([LeafNode] @ put_u64 fo @ put_u64 lsn @ put_bool hl @ put_bool hr @
        put_u64 ls @ put_u64 rs @ put_u32 cc @ concat (map put_u16 offs) @
        put_u16 fs @ replicate (unat fs) 0 @ ft) =
     bind_res (leaf_read_cells offs ft (replicate (length offs) None)) (\<lambda>cs.
       Inr (empty_leafNode\<lparr>fileOffset := fo, offsets := offs, freeSize := fs, lastLSN := lsn,
              lcells := cs, hasLSib := hl, hasRSib := hr, lSibFileOffset := ls,
              rSibFileOffset := rs\<rparr>))"
proof -
  have e: "offsets empty_leafNode = []" by (simp add: empty_leafNode_def)
  show ?thesis
    unfolding leafNode_decode_def
    by (simp add: read_u8_Cons read_u64_put read_bool_put read_u32_put read_offsets_put
        read_u16_put cc e)
qed

lemma valid_leaf_distinct_offsets:
  assumes "sorted_wrt (<) (leaf_slot_keys n)"
  shows "distinct (map unat (offsets n))"
proof -
  have "distinct (leaf_slot_keys n)" using assms by (simp add: strict_sorted_iff)
  moreover have "leaf_slot_keys n = map (\<lambda>i. lc_key (the (lcells n ! i))) (map unat (offsets n))"
    by (simp add: leaf_slot_keys_def slot_cells_def comp_def)
  ultimately show ?thesis by (metis distinct_map)
qed

lemma leafNode_decode_encode:
  assumes v: "valid_leaf n"
  shows "\<exists>fs. bind_res (leafNode_encode n) (leafNode_decode empty_leafNode) =
     bind_res (scatter (offsets n) (slot_cells (lcells n) (offsets n))
                 (replicate (length (offsets n)) None)) (\<lambda>cs.
       Inr (empty_leafNode\<lparr>fileOffset := fileOffset n, offsets := offsets n,
              freeSize := fs, lastLSN := lastLSN n,
              lcells := cs, hasLSib := hasLSib n, hasRSib := hasRSib n,
              lSibFileOffset := lSibFileOffset n, rSibFileOffset := rSibFileOffset n\<rparr>))"
proof -
  from v have ok: "slots_ok (lcells n) (offsets n)"
    and le: "length (offsets n) \<le> maxLeafNodeCells"
    and vs: "list_all (\<lambda>c. length (lc_valueBytes c) \<le> maxValueSize)
               (slot_cells (lcells n) (offsets n))"
    and sz: "list_all (\<lambda>c. unat (lc_valueSize c) = length (lc_valueBytes c))
               (slot_cells (lcells n) (offsets n))"
    by (simp_all add: valid_leaf_def list_all_iff)
  have l9: "length (offsets n) \<le> 9"
    using le by (simp add: maxLeafNodeCells_def pageSize_def leafNodeHeaderSize_def
        offsetElemSize_def leafNodeCellSize_def maxValueSize_def)
  then have cc: "unat (of_nat (length (offsets n)) :: u32) = length (offsets n)"
    by (simp add: unat_of_nat_u32)
  obtain ft fs where ft: "leaf_footer (lcells n) (offsets n) = Inr ft"
    and enc: "leafNode_encode n =
       Inr ([LeafNode] @ put_u64 (fileOffset n) @ put_u64 (lastLSN n) @
            put_bool (hasLSib n) @ put_bool (hasRSib n) @
            put_u64 (lSibFileOffset n) @ put_u64 (rSibFileOffset n) @
            put_u32 (of_nat (length (offsets n))) @ concat (map put_u16 (offsets n)) @
            put_u16 fs @ replicate (unat fs) 0 @ ft)"
    using leafNode_encode_layout [OF ok le vs] by blast
  have rd: "leaf_read_cells (offsets n) ft (replicate (length (offsets n)) None) =
      scatter (offsets n) (slot_cells (lcells n) (offsets n)) (replicate (length (offsets n)) None)"
    by (rule leaf_read_cells_footer [OF ok sz ft])
  have "bind_res (leafNode_encode n) (leafNode_decode empty_leafNode) =
     bind_res (scatter (offsets n) (slot_cells (lcells n) (offsets n))
                 (replicate (length (offsets n)) None)) (\<lambda>cs.
       Inr (empty_leafNode\<lparr>fileOffset := fileOffset n, offsets := offsets n,
              freeSize := fs, lastLSN := lastLSN n,
              lcells := cs, hasLSib := hasLSib n, hasRSib := hasRSib n,
              lSibFileOffset := lSibFileOffset n, rSibFileOffset := rSibFileOffset n\<rparr>))"
    unfolding enc bind_res_simps leafNode_decode_layout [OF cc] rd ..
  then show ?thesis ..
qed

text \<open>
  Where every offset is below the number of slots, as in a node that was never split
  after an insertion out of key order, decoding the encoded leaf gives back the fields of
  the header, the offsets and the cells in slot order.
\<close>

lemma leafNode_round_trip_aligned:
  assumes v: "valid_leaf n"
    and al: "list_all (\<lambda>off. unat off < length (offsets n)) (offsets n)"
  shows "\<exists>n'. bind_res (leafNode_encode n) (leafNode_decode empty_leafNode) = Inr n' \<and>
     fileOffset n' = fileOffset n \<and> lastLSN n' = lastLSN n \<and>
     hasLSib n' = hasLSib n \<and> hasRSib n' = hasRSib n \<and>
     lSibFileOffset n' = lSibFileOffset n \<and> rSibFileOffset n' = rSibFileOffset n \<and>
     offsets n' = offsets n \<and>
     slot_cells (lcells n') (offsets n') = slot_cells (lcells n) (offsets n)"
proof -
  have d: "distinct (map unat (offsets n))"
    using v by (simp add: valid_leaf_def valid_leaf_distinct_offsets)
  obtain cs where sc: "scatter (offsets n) (slot_cells (lcells n) (offsets n))
                  (replicate (length (offsets n)) None) = Inr cs"
    and eq: "slot_cells cs (offsets n) = slot_cells (lcells n) (offsets n)"
    using scatter_ok [of "slot_cells (lcells n) (offsets n)" "offsets n"
        "replicate (length (offsets n)) None"] al d
    by (auto simp: slot_cells_def)
  obtain fs where "bind_res (leafNode_encode n) (leafNode_decode empty_leafNode) =
     Inr (empty_leafNode\<lparr>fileOffset := fileOffset n, offsets := offsets n,
              freeSize := fs, lastLSN := lastLSN n,
              lcells := cs, hasLSib := hasLSib n, hasRSib := hasRSib n,
              lSibFileOffset := lSibFileOffset n, rSibFileOffset := rSibFileOffset n\<rparr>)"
    using leafNode_decode_encode [OF v] by (auto simp: sc)
  then show ?thesis using eq by simp
qed

text \<open>Where some offset is not below the number of slots, \<open>decode\<close> panics.\<close>

lemma leafNode_decode_panics:
  assumes v: "valid_leaf n"
    and al: "\<not> list_all (\<lambda>off. unat off < length (offsets n)) (offsets n)"
  shows "bind_res (leafNode_encode n) (leafNode_decode empty_leafNode) = Inl RuntimePanic"
proof -
  have "scatter (offsets n) (slot_cells (lcells n) (offsets n))
          (replicate (length (offsets n)) None) = Inl RuntimePanic"
    using al by (intro scatter_panic) (simp_all add: slot_cells_def)
  then show ?thesis using leafNode_decode_encode [OF v] by auto
qed

text \<open>The same for internal nodes.\<close>

lemma internal_read_cells_footer:
  "slots_ok cs offs \<Longrightarrow> internal_footer cs offs = Inr ft \<Longrightarrow>
   internal_read_cells offs ft acc = scatter offs (slot_cells cs offs) acc"
proof (induction offs arbitrary: ft acc)
  case Nil
  then show ?case by (simp add: slot_cells_def)
next
  case (Cons off rest)
  define c where "c = the (cs ! unat off)"
  from Cons.prems have ca: "cell_at cs (unat off) = Inr c" and r: "slots_ok cs rest"
    by (auto simp: slots_ok_Cons cell_at_def c_def)
  from Cons.prems(2) ca obtain ft' where f': "internal_footer cs rest = Inr ft'"
    and ft: "ft = put_u32 (ic_key c) @ put_u64 (ic_fileOffset c) @ ft'"
    by (auto split: sum.splits)
  have sc: "slot_cells cs (off # rest) = c # slot_cells cs rest"
    by (simp add: slot_cells_def c_def)
  have cell: "\<lparr>ic_key = ic_key c, ic_fileOffset = ic_fileOffset c\<rparr> = c" by simp
  show ?case
    unfolding ft sc
    using Cons.IH [OF r f'] by (simp add: read_u32_put read_u64_put cell)
qed

lemma internalNode_encode_layout:
  assumes ok: "slots_ok (icells n) (offsets n)" and le: "length (offsets n) \<le> maxInternalNodeCells"
  shows "\<exists>ft fs. internal_footer (icells n) (offsets n) = Inr ft \<and>
     internalNode_encode n =
       Inr ([InternalNode] @ put_u64 (fileOffset n) @ put_u64 (lastLSN n) @
            put_u64 (rightOffset n) @ put_u32 (of_nat (length (offsets n))) @
            concat (map put_u16 (offsets n)) @ put_u16 fs @ replicate (unat fs) 0 @ ft)"
proof -
  have l290: "length (offsets n) \<le> 290"
    using le by (simp add: maxInternalNodeCells_def pageSize_def internalNodeHeaderSize_def
        offsetElemSize_def internalNodeCellSize_def)
  then have cc: "unat (of_nat (length (offsets n)) :: u32) = length (offsets n)"
    by (simp add: unat_of_nat_u32)
  obtain ft where ft: "internal_footer (icells n) (offsets n) = Inr ft"
    and lft: "length ft = 12 * length (offsets n)"
    using internal_footer_length [OF ok] by blast
  define x where "x = 4096 - int (29 + 2 * length (offsets n)) - int (length ft) - 2"
  have x0: "0 \<le> x" and x1: "x < 65536" using l290 lft by (simp_all add: x_def)
  have ux: "unat (of_int x :: u16) = nat x" by (rule unat_of_int_u16 [OF x0 x1])
  have tot: "29 + 2 * length (offsets n) + 2 + nat x + length ft = 4096"
    using x0 by (simp add: x_def)
  have "internalNode_encode n =
       Inr ([InternalNode] @ put_u64 (fileOffset n) @ put_u64 (lastLSN n) @
            put_u64 (rightOffset n) @ put_u32 (of_nat (length (offsets n))) @
            concat (map put_u16 (offsets n)) @
            put_u16 (of_int x) @ replicate (unat (of_int x :: u16)) 0 @ ft)"
    unfolding internalNode_encode_def Let_def cc
    using ft ux tot by (simp add: pageSize_def x_def)
  with ft show ?thesis by blast
qed

lemma internalNode_decode_layout:
  assumes cc: "unat cc = length offs"
  shows "internalNode_decode empty_internalNode
       ([InternalNode] @ put_u64 fo @ put_u64 lsn @ put_u64 ro @ put_u32 cc @
        concat (map put_u16 offs) @ put_u16 fs @ replicate (unat fs) 0 @ ft) =
     bind_res (internal_read_cells offs ft (replicate (length offs) None)) (\<lambda>cs.
       Inr (empty_internalNode\<lparr>fileOffset := fo, offsets := offs, freeSize := fs,
              lastLSN := lsn, icells := cs, rightOffset := ro\<rparr>))"
proof -
  have e: "offsets empty_internalNode = []" by (simp add: empty_internalNode_def)
  show ?thesis
    unfolding internalNode_decode_def
    by (simp add: read_u8_Cons read_u64_put read_u32_put read_offsets_put read_u16_put cc e)
qed

lemma valid_internal_distinct_offsets:
  assumes "sorted_wrt (<) (internal_slot_keys n)"
  shows "distinct (map unat (offsets n))"
proof -
  have "distinct (internal_slot_keys n)" using assms by (simp add: strict_sorted_iff)
  moreover have "internal_slot_keys n =
      map (\<lambda>i. ic_key (the (icells n ! i))) (map unat (offsets n))"
    by (simp add: internal_slot_keys_def slot_cells_def comp_def)
  ultimately show ?thesis by (metis distinct_map)
qed

lemma internalNode_decode_encode:
  assumes v: "valid_internal n"
  shows "\<exists>fs. bind_res (internalNode_encode n) (internalNode_decode empty_internalNode) =
     bind_res (scatter (offsets n) (slot_cells (icells n) (offsets n))
                 (replicate (length (offsets n)) None)) (\<lambda>cs.
       Inr (empty_internalNode\<lparr>fileOffset := fileOffset n, offsets := offsets n,
              freeSize := fs, lastLSN := lastLSN n, icells := cs,
              rightOffset := rightOffset n\<rparr>))"
proof -
  from v have ok: "slots_ok (icells n) (offsets n)"
    and le: "length (offsets n) \<le> maxInternalNodeCells"
    by (simp_all add: valid_internal_def)
  have l290: "length (offsets n) \<le> 290"
    using le by (simp add: maxInternalNodeCells_def pageSize_def internalNodeHeaderSize_def
        offsetElemSize_def internalNodeCellSize_def)
  then have cc: "unat (of_nat (length (offsets n)) :: u32) = length (offsets n)"
    by (simp add: unat_of_nat_u32)
  obtain ft fs where ft: "internal_footer (icells n) (offsets n) = Inr ft"
    and enc: "internalNode_encode n =
       Inr ([InternalNode] @ put_u64 (fileOffset n) @ put_u64 (lastLSN n) @
            put_u64 (rightOffset n) @ put_u32 (of_nat (length (offsets n))) @
            concat (map put_u16 (offsets n)) @ put_u16 fs @ replicate (unat fs) 0 @ ft)"
    using internalNode_encode_layout [OF ok le] by blast
  have rd: "internal_read_cells (offsets n) ft (replicate (length (offsets n)) None) =
      scatter (offsets n) (slot_cells (icells n) (offsets n)) (replicate (length (offsets n)) None)"
    by (rule internal_read_cells_footer [OF ok ft])
  have "bind_res (internalNode_encode n) (internalNode_decode empty_internalNode) =
     bind_res (scatter (offsets n) (slot_cells (icells n) (offsets n))
                 (replicate (length (offsets n)) None)) (\<lambda>cs.
       Inr (empty_internalNode\<lparr>fileOffset := fileOffset n, offsets := offsets n,
              freeSize := fs, lastLSN := lastLSN n, icells := cs,
              rightOffset := rightOffset n\<rparr>))"
    unfolding enc bind_res_simps internalNode_decode_layout [OF cc] rd ..
  then show ?thesis ..
qed

lemma internalNode_round_trip_aligned:
  assumes v: "valid_internal n"
    and al: "list_all (\<lambda>off. unat off < length (offsets n)) (offsets n)"
  shows "\<exists>n'. bind_res (internalNode_encode n) (internalNode_decode empty_internalNode) = Inr n' \<and>
     fileOffset n' = fileOffset n \<and> lastLSN n' = lastLSN n \<and> rightOffset n' = rightOffset n \<and>
     offsets n' = offsets n \<and>
     slot_cells (icells n') (offsets n') = slot_cells (icells n) (offsets n)"
proof -
  have d: "distinct (map unat (offsets n))"
    using v by (simp add: valid_internal_def valid_internal_distinct_offsets)
  obtain cs where sc: "scatter (offsets n) (slot_cells (icells n) (offsets n))
                  (replicate (length (offsets n)) None) = Inr cs"
    and eq: "slot_cells cs (offsets n) = slot_cells (icells n) (offsets n)"
    using scatter_ok [of "slot_cells (icells n) (offsets n)" "offsets n"
        "replicate (length (offsets n)) None"] al d
    by (auto simp: slot_cells_def)
  obtain fs where "bind_res (internalNode_encode n) (internalNode_decode empty_internalNode) =
     Inr (empty_internalNode\<lparr>fileOffset := fileOffset n, offsets := offsets n,
              freeSize := fs, lastLSN := lastLSN n, icells := cs,
              rightOffset := rightOffset n\<rparr>)"
    using internalNode_decode_encode [OF v] by (auto simp: sc)
  then show ?thesis using eq by simp
qed

lemma internalNode_decode_panics:
  assumes v: "valid_internal n"
    and al: "\<not> list_all (\<lambda>off. unat off < length (offsets n)) (offsets n)"
  shows "bind_res (internalNode_encode n) (internalNode_decode empty_internalNode) =
     Inl RuntimePanic"
proof -
  have "scatter (offsets n) (slot_cells (icells n) (offsets n))
          (replicate (length (offsets n)) None) = Inl RuntimePanic"
    using al by (intro scatter_panic) (simp_all add: slot_cells_def)
  then show ?thesis using internalNode_decode_encode [OF v] by auto
qed

text \<open>
  C2, at a leaf the operations build. \<open>leaf_after_split\<close> is the old page of \<open>leaf_ex\<close> after
  \<open>split\<close>: it keeps both cells and the one slot \<open>offsets = [1]\<close>. It satisfies the node
  invariants and is encoded into 4096 bytes, with cell count 1. \<open>decode\<close> makes \<open>p.cells\<close> of
  length 1 and stores the cell at \<open>p.cells[p.offsets[0]] = p.cells[1]\<close>: it panics, where
  the round trip owes the node back.
\<close>

theorem decode_panics_after_split:
  "(\<exists>q. leafNode_split leaf_ex empty_leafNode = Inr (5, leaf_after_split, q)) \<and>
   valid_leaf leaf_after_split \<and>
   (\<exists>buf. leafNode_encode leaf_after_split = Inr buf \<and> length buf = 4096) \<and>
   bind_res (leafNode_encode leaf_after_split) (leafNode_decode empty_leafNode) =
     Inl RuntimePanic"
proof (intro conjI)
  show "\<exists>q. leafNode_split leaf_ex empty_leafNode = Inr (5, leaf_after_split, q)"
    by (simp add: leafNode_split_def leaf_after_split_def leaf_ex_def empty_leafNode_def
        cell_at_def leafNode_appendCell_def)
  show v: "valid_leaf leaf_after_split"
    by (simp add: valid_leaf_def leaf_after_split_def leaf_ex_def empty_leafNode_def slots_ok_def
        leaf_slot_keys_def slot_cells_def maxLeafNodeCells_def pageSize_def
        leafNodeHeaderSize_def offsetElemSize_def leafNodeCellSize_def maxValueSize_def)
  then have "slots_ok (lcells leaf_after_split) (offsets leaf_after_split)"
    and "length (offsets leaf_after_split) \<le> maxLeafNodeCells"
    and "list_all (\<lambda>c. length (lc_valueBytes c) \<le> maxValueSize)
           (slot_cells (lcells leaf_after_split) (offsets leaf_after_split))"
    by (simp_all add: valid_leaf_def list_all_iff)
  then show "\<exists>buf. leafNode_encode leaf_after_split = Inr buf \<and> length buf = 4096"
    using leafNode_encode_length [of leaf_after_split] by (simp add: pageSize_def)
  show "bind_res (leafNode_encode leaf_after_split) (leafNode_decode empty_leafNode) =
     Inl RuntimePanic"
    by (rule leafNode_decode_panics [OF v])
      (simp add: leaf_after_split_def leaf_ex_def empty_leafNode_def)
qed

section \<open>Flushing the cache\<close>

lemma file_WriteAt_log:
  "file_WriteAt fl b off = (e, fl') \<Longrightarrow> wlog fl' = wlog fl @ [(off, b, e = None)]"
  by (auto simp: file_WriteAt_def split: if_splits list.splits bool.splits)

lemma map_of_filter_key:
  "map_of (filter (\<lambda>x. fst x \<noteq> k) es) k' = (if k' = k then None else map_of es k')"
  by (induction es) auto

lemma lru_set_present:
  assumes "map_of (entries c) k = Some a"
  shows "lru_set h c k a = Some (c\<lparr>entries := (k, a) # filter (\<lambda>x. fst x \<noteq> k) (entries c)\<rparr>)"
proof -
  have "k \<in> fst ` set (entries c)"
    using assms by (metis map_of_eq_None_iff option.distinct(1))
  then show ?thesis by (simp add: lru_set_def)
qed

lemma map_of_touch:
  assumes "map_of es k = Some a"
  shows "map_of ((k, a) # filter (\<lambda>x. fst x \<noteq> k) es) = map_of es"
  using assms by (auto simp: map_of_filter_key fun_eq_iff)

lemma cache_ok_touch:
  assumes ok: "cache_ok h es" and m: "map_of es k = Some a"
  shows "cache_ok h ((k, a) # filter (\<lambda>x. fst x \<noteq> k) es)"
proof -
  have mem: "(k, a) \<in> set es" using m by (rule map_of_SomeD)
  have d: "distinct (map fst (filter (\<lambda>x. fst x \<noteq> k) es))"
    using ok by (simp add: cache_ok_def distinct_map_filter)
  have "k \<notin> fst ` set (filter (\<lambda>x. fst x \<noteq> k) es)" by auto
  then show ?thesis
    using ok d mem by (auto simp: cache_ok_def list_all_iff)
qed

lemma cache_ok_heap:
  assumes ok: "cache_ok h es" and same: "\<And>x. x \<in> snd ` set es \<Longrightarrow>
      map_option btree_getFileOffset (h' x) = map_option btree_getFileOffset (h x)"
  shows "cache_ok h' es"
proof -
  have "case h' (snd e) of Some nd \<Rightarrow> btree_getFileOffset nd = fst e | None \<Rightarrow> False"
    if e: "e \<in> set es" for e
  proof -
    have "case h (snd e) of Some nd \<Rightarrow> btree_getFileOffset nd = fst e | None \<Rightarrow> False"
      using ok e by (simp add: cache_ok_def list_all_iff)
    moreover have "map_option btree_getFileOffset (h' (snd e)) =
        map_option btree_getFileOffset (h (snd e))"
      using same [of "snd e"] e by simp
    ultimately show ?thesis by (auto split: option.splits)
  qed
  then show ?thesis using ok by (simp add: cache_ok_def list_all_iff)
qed

lemma cache_ok_lookup:
  assumes "cache_ok h es" "map_of es k = Some a"
  shows "\<exists>nd. h a = Some nd \<and> btree_getFileOffset nd = k"
proof -
  have "(k, a) \<in> set es" using assms(2) by (rule map_of_SomeD)
  then show ?thesis using assms(1) by (auto simp: cache_ok_def list_all_iff split: option.splits)
qed

lemma cache_ok_inj:
  assumes "cache_ok h es" "map_of es k = Some a" "map_of es k' = Some a"
  shows "k = k'"
  using cache_ok_lookup [OF assms(1,2)] cache_ok_lookup [OF assms(1,3)] by auto

lemma getFileOffset_markClean [simp]:
  "btree_getFileOffset (btree_markClean nd) = btree_getFileOffset nd"
  by (cases nd) (simp_all add: markClean_def)

lemma isDirty_markClean [simp]: "\<not> btree_isDirty (btree_markClean nd)"
  by (cases nd) (simp_all add: markClean_def isDirty_def)

lemma dirty_addrs_subset:
  "a \<in> set (dirty_addrs h es ks) \<Longrightarrow> \<exists>k \<in> set ks. map_of es k = Some a \<and> entry_dirty h (k, a)"
  by (induction ks) (auto split: option.splits if_splits)

lemma dirty_addrs_cong:
  assumes "\<And>k. k \<in> set ks \<Longrightarrow> map_of es' k = map_of es k"
    and "\<And>k a. k \<in> set ks \<Longrightarrow> map_of es k = Some a \<Longrightarrow> h' a = h a"
  shows "dirty_addrs h' es' ks = dirty_addrs h es ks"
  using assms
proof (induction ks)
  case Nil
  then show ?case by simp
next
  case (Cons k ks)
  have "dirty_addrs h' es' ks = dirty_addrs h es ks"
    by (rule Cons.IH) (use Cons.prems in auto)
  moreover have "map_of es' k = map_of es k" using Cons.prems(1) by simp
  moreover have "\<And>a. map_of es k = Some a \<Longrightarrow> entry_dirty h' (k, a) = entry_dirty h (k, a)"
    using Cons.prems(2) [of k] by (simp add: entry_dirty_def)
  ultimately show ?case by (auto split: option.splits)
qed

lemma dirty_addrs_distinct:
  assumes "cache_ok h es" "distinct ks"
  shows "distinct (dirty_addrs h es ks)"
  using assms(2)
proof (induction ks)
  case Nil
  then show ?case by simp
next
  case (Cons k ks)
  have "a \<notin> set (dirty_addrs h es ks)" if "map_of es k = Some a" for a
  proof
    assume "a \<in> set (dirty_addrs h es ks)"
    then obtain k' where "k' \<in> set ks" "map_of es k' = Some a"
      using dirty_addrs_subset by blast
    then show False using cache_ok_inj [OF assms(1) that] Cons.prems by auto
  qed
  then show ?case using Cons by (auto split: option.splits)
qed

lemma page_write_cong: "h' a = h a \<Longrightarrow> page_write h' ok a = page_write h ok a"
  by (simp add: page_write_def)

text \<open>One call of \<open>update\<close> on a node that the cache holds under its file offset.\<close>

lemma fileStore_update_cached:
  assumes nd: "h a = Some nd" and m: "map_of (entries (cache f)) (btree_getFileOffset nd) = Some a"
    and u: "fileStore_update h f a = (e, f1)"
  shows "(\<exists>err. btree_encode nd = Inl err \<and> e = Some err \<and> f1 = f) \<or>
     (\<exists>buf. btree_encode nd = Inr buf \<and>
        wlog (fs_file f1) = wlog (fs_file f) @ [(sint (btree_getFileOffset nd), buf, e = None)] \<and>
        entries (cache f1) =
          (btree_getFileOffset nd, a) #
          filter (\<lambda>x. fst x \<noteq> btree_getFileOffset nd) (entries (cache f)) \<and>
        header_bytes f1 = header_bytes f)"
proof (cases "btree_encode nd")
  case (Inl err)
  then show ?thesis using u nd by (simp add: fileStore_update_def)
next
  case (Inr buf)
  obtain werr file1 where w: "file_WriteAt (fs_file f) buf (sint (btree_getFileOffset nd)) = (werr, file1)"
    by (cases "file_WriteAt (fs_file f) buf (sint (btree_getFileOffset nd))")
  have ls: "lru_set h (cache f) (btree_getFileOffset nd) a =
      Some ((cache f)\<lparr>entries := (btree_getFileOffset nd, a) #
              filter (\<lambda>x. fst x \<noteq> btree_getFileOffset nd) (entries (cache f))\<rparr>)"
    by (rule lru_set_present [OF m])
  have "e = werr" and f1: "f1 = f\<lparr>fs_file := file1,
      cache := (cache f)\<lparr>entries := (btree_getFileOffset nd, a) #
              filter (\<lambda>x. fst x \<noteq> btree_getFileOffset nd) (entries (cache f))\<rparr>\<rparr>"
    using u nd Inr w ls by (simp_all add: fileStore_update_def setCache_def)
  then show ?thesis
    using Inr file_WriteAt_log [OF w] by (simp add: header_bytes_def)
qed

lemma flush_loop_contract:
  "cache_ok h (entries (cache f)) \<Longrightarrow> distinct ks \<Longrightarrow> flush_loop h f ks = (err, h', f') \<Longrightarrow>
   \<exists>written rest more. flush_loop_post h f ks err h' f' written rest more"
proof (induction ks arbitrary: h f)
  case Nil
  then have "flush_loop_post h f [] err h' f' [] [] []"
    by (simp add: flush_loop_post_def)
  then show ?case by blast
next
  case (Cons k ks)
  note ok = Cons.prems(1) and dk = Cons.prems(2) and run = Cons.prems(3)
  define es where "es = entries (cache f)"
  have dks: "distinct ks" and kn: "k \<notin> set ks" using dk by simp_all
  show ?case
  proof (cases "map_of es k")
    case None
    then have "flush_loop h f ks = (err, h', f')" using run by (simp add: es_def)
    from Cons.IH [OF ok dks this] obtain w r m where "flush_loop_post h f ks err h' f' w r m"
      by blast
    then have "flush_loop_post h f (k # ks) err h' f' w r m"
      using None by (simp add: flush_loop_post_def es_def)
    then show ?thesis by blast
  next
    case (Some a)
    obtain nd where nd: "h a = Some nd" and off: "btree_getFileOffset nd = k"
      using cache_ok_lookup [OF ok Some [unfolded es_def]] by blast
    show ?thesis
    proof (cases "btree_isDirty nd")
      case False
      then have "flush_loop h f ks = (err, h', f')"
        using run Some nd by (simp add: es_def)
      from Cons.IH [OF ok dks this] obtain w r m where "flush_loop_post h f ks err h' f' w r m"
        by blast
      then have "flush_loop_post h f (k # ks) err h' f' w r m"
        using Some nd False by (simp add: flush_loop_post_def es_def entry_dirty_def)
      then show ?thesis by blast
    next
      case True
      have da: "dirty_addrs h es (k # ks) = a # dirty_addrs h es ks"
        using Some nd True by (simp add: entry_dirty_def)
      obtain e f1 where u: "fileStore_update h f a = (e, f1)"
        by (cases "fileStore_update h f a")
      have m: "map_of (entries (cache f)) (btree_getFileOffset nd) = Some a"
        using Some off by (simp add: es_def)
      from fileStore_update_cached [OF nd m u]
      consider (panic) err0 where "btree_encode nd = Inl err0" "e = Some err0" "f1 = f"
        | (wrote) buf where "btree_encode nd = Inr buf"
            "wlog (fs_file f1) = wlog (fs_file f) @ [(sint k, buf, e = None)]"
            "entries (cache f1) = (k, a) # filter (\<lambda>x. fst x \<noteq> k) es"
            "header_bytes f1 = header_bytes f"
        unfolding off es_def by blast
      then show ?thesis
      proof cases
        case panic
        then have "err = Some err0" "h' = h" "f' = f"
          using run Some nd True u by (simp_all add: es_def)
        then have "flush_loop_post h f (k # ks) err h' f' [] (a # dirty_addrs h es ks) []"
          using da by (simp add: flush_loop_post_def es_def)
        then show ?thesis by blast
      next
        case wrote
        have pw: "\<And>b. page_write h b a = (sint k, buf, b)"
          using nd off wrote(1) by (simp add: page_write_def)
        show ?thesis
        proof (cases e)
          case (Some x)
          then have "err = Some x" "h' = h" "f' = f1"
            using run \<open>map_of es k = Some a\<close> nd True u by (simp_all add: es_def)
          then have "flush_loop_post h f (k # ks) err h' f' [] (a # dirty_addrs h es ks)
              [page_write h False a]"
            using da wrote Some pw by (simp add: flush_loop_post_def es_def)
          then show ?thesis by blast
        next
          case None
          define h1 where "h1 = h(a \<mapsto> btree_markClean nd)"
          have run1: "flush_loop h1 f1 ks = (err, h', f')"
            using run \<open>map_of es k = Some a\<close> nd True u None by (simp add: es_def h1_def)
          have ok1: "cache_ok h1 (entries (cache f1))"
          proof -
            have "cache_ok h ((k, a) # filter (\<lambda>x. fst x \<noteq> k) es)"
              using cache_ok_touch [OF ok [folded es_def] \<open>map_of es k = Some a\<close>] .
            then show ?thesis
              unfolding wrote(3)
              by (rule cache_ok_heap) (simp add: h1_def nd)
          qed
          from Cons.IH [OF ok1 dks run1] obtain w r mo where
            post: "flush_loop_post h1 f1 ks err h' f' w r mo" by blast
          have other: "a' \<noteq> a" if "k' \<in> set ks" "map_of es k' = Some a'" for k' a'
          proof
            assume "a' = a"
            then have "k' = k"
              using cache_ok_inj [OF ok [folded es_def] that(2)] \<open>map_of es k = Some a\<close> by simp
            then show False using that(1) kn by simp
          qed
          have mo1: "map_of (entries (cache f1)) = map_of es"
            unfolding wrote(3) by (rule map_of_touch [OF \<open>map_of es k = Some a\<close>])
          have d1: "dirty_addrs h1 (entries (cache f1)) ks = dirty_addrs h es ks"
            by (rule dirty_addrs_cong) (use mo1 other in \<open>auto simp: h1_def\<close>)
          have an: "a \<notin> set (dirty_addrs h es ks)"
            using dirty_addrs_subset [of a h es ks] other by blast
          from post have wr: "dirty_addrs h es ks = w @ r"
            and lg: "wlog (fs_file f') = wlog (fs_file f1) @ map (page_write h1 True) w @ mo"
            and cl: "\<forall>x \<in> set w. h' x = map_option btree_markClean (h1 x)"
            and un: "\<forall>x. x \<notin> set w \<longrightarrow> h' x = h1 x"
            and hd: "header_bytes f' = header_bytes f1"
            and e0: "err = None \<longrightarrow> r = [] \<and> mo = []"
            and e1: "err \<noteq> None \<longrightarrow> r \<noteq> [] \<and> (mo = [] \<or> mo = [page_write h1 False (hd r)])"
            by (simp_all add: flush_loop_post_def d1)
          have aw: "a \<notin> set w" and ar: "a \<notin> set r" using an wr by simp_all
          have same: "\<And>x. x \<noteq> a \<Longrightarrow> h1 x = h x" by (simp add: h1_def)
          have pws: "map (page_write h1 True) w = map (page_write h True) w"
            using aw by (intro map_cong refl page_write_cong) (auto simp: h1_def)
          have hdr: "r \<noteq> [] \<Longrightarrow> page_write h1 False (hd r) = page_write h False (hd r)"
            using ar by (intro page_write_cong) (auto simp: h1_def)
          have "flush_loop_post h f (k # ks) err h' f' (a # w) r mo"
            unfolding flush_loop_post_def
          proof (intro conjI)
            show "dirty_addrs h (entries (cache f)) (k # ks) = (a # w) @ r"
              using da wr by (simp add: es_def)
            show "wlog (fs_file f') =
                wlog (fs_file f) @ map (page_write h True) (a # w) @ mo"
              using lg wrote(2) None pws pw by simp
            show "\<forall>x \<in> set (a # w). h' x = map_option btree_markClean (h x)"
              using cl un aw nd by (auto simp: h1_def)
            show "\<forall>x. x \<notin> set (a # w) \<longrightarrow> h' x = h x"
              using un by (auto simp: h1_def)
            show "header_bytes f' = header_bytes f" using hd wrote(4) by simp
            show "err = None \<longrightarrow> r = [] \<and> mo = []" by (rule e0)
            show "err \<noteq> None \<longrightarrow> r \<noteq> [] \<and> (mo = [] \<or> mo = [page_write h False (hd r)])"
              using e1 hdr by auto
          qed
          then show ?thesis by blast
        qed
      qed
    qed
  qed
qed

lemma entry_dirty_addr: "entry_dirty h e = addr_dirty h (snd e)"
  by (simp add: entry_dirty_def addr_dirty_def)

lemma dirty_addrs_mem:
  "k \<in> set ks \<Longrightarrow> map_of es k = Some a \<Longrightarrow> addr_dirty h a \<Longrightarrow>
   a \<in> set (dirty_addrs h es ks)"
  by (induction ks) (auto simp: entry_dirty_addr split: option.splits)

lemma dirty_addrs_set:
  assumes ok: "cache_ok h es" and ks: "set ks = fst ` set es"
  shows "set (dirty_addrs h es ks) = {a \<in> snd ` set es. addr_dirty h a}"
proof (intro set_eqI iffI)
  fix a assume "a \<in> set (dirty_addrs h es ks)"
  then obtain k where "map_of es k = Some a" "entry_dirty h (k, a)"
    using dirty_addrs_subset by blast
  then show "a \<in> {a \<in> snd ` set es. addr_dirty h a}"
    by (force simp: entry_dirty_addr dest: map_of_SomeD)
next
  fix a assume "a \<in> {a \<in> snd ` set es. addr_dirty h a}"
  then obtain k where ka: "(k, a) \<in> set es" and d: "addr_dirty h a" by auto
  have "map_of es k = Some a" using ok ka by (simp add: cache_ok_def)
  moreover have "k \<in> set ks" using ka ks by force
  ultimately show "a \<in> set (dirty_addrs h es ks)" using d by (simp add: dirty_addrs_mem)
qed

text \<open>
  C8. One call of \<open>flushPages\<close> on a store whose cache is in order, the range reaching
  every key once. The dirty cached nodes split into those written and the rest. Each
  written node was written at its file offset with its encoding, the write succeeded, and
  only then was its dirty bit cleared; no other node has changed, so a node whose write
  failed is still dirty. When nothing is left, the writes of the pages are followed by
  the one write of the header at offset 0 and the result is that of this write; when
  something is left, the call has failed at the first node left, before its write or in
  it, and no header was written. The call succeeds only when every dirty cached node was
  written.
\<close>

theorem flushPages_contract:
  assumes ok: "cache_ok h (entries (cache f))"
    and dk: "distinct ks" and ks: "set ks = fst ` set (entries (cache f))"
    and run: "fileStore_flushPages h f ks = (err, h', f')"
  shows "\<exists>written rest extra.
     dirty_addrs h (entries (cache f)) ks = written @ rest \<and>
     distinct (written @ rest) \<and>
     set (written @ rest) = {a \<in> snd ` set (entries (cache f)). addr_dirty h a} \<and>
     wlog (fs_file f') = wlog (fs_file f) @ map (page_write h True) written @ extra \<and>
     (\<forall>a \<in> set written. h' a = map_option btree_markClean (h a)) \<and>
     (\<forall>a. a \<notin> set written \<longrightarrow> h' a = h a) \<and>
     (\<forall>a \<in> set rest. addr_dirty h' a) \<and>
     (rest = [] \<longrightarrow> extra = [(0, header_bytes f, err = None)]) \<and>
     (rest \<noteq> [] \<longrightarrow> err \<noteq> None \<and> (extra = [] \<or> extra = [page_write h False (hd rest)])) \<and>
     (err = None \<longrightarrow> rest = [])"
proof -
  obtain e1 h1 f1 where lp: "flush_loop h f ks = (e1, h1, f1)"
    by (cases "flush_loop h f ks")
  from flush_loop_contract [OF ok dk lp] obtain w r x where
    post: "flush_loop_post h f ks e1 h1 f1 w r x" by blast
  then have wr: "dirty_addrs h (entries (cache f)) ks = w @ r"
    and lg: "wlog (fs_file f1) = wlog (fs_file f) @ map (page_write h True) w @ x"
    and cl: "\<forall>a \<in> set w. h1 a = map_option btree_markClean (h a)"
    and un: "\<forall>a. a \<notin> set w \<longrightarrow> h1 a = h a"
    and hd: "header_bytes f1 = header_bytes f"
    and e0: "e1 = None \<longrightarrow> r = [] \<and> x = []"
    and en: "e1 \<noteq> None \<longrightarrow> r \<noteq> [] \<and> (x = [] \<or> x = [page_write h False (hd r)])"
    by (simp_all add: flush_loop_post_def)
  have dist: "distinct (w @ r)"
    using dirty_addrs_distinct [OF ok dk] wr by simp
  have st: "set (w @ r) = {a \<in> snd ` set (entries (cache f)). addr_dirty h a}"
    using dirty_addrs_set [OF ok ks] wr by simp
  have rd: "\<forall>a \<in> set r. addr_dirty h1 a"
  proof
    fix a assume a: "a \<in> set r"
    then have "a \<notin> set w" using dist by auto
    then have "h1 a = h a" using un by simp
    moreover have "addr_dirty h a" using st a by auto
    ultimately show "addr_dirty h1 a" by (simp add: addr_dirty_def)
  qed
  show ?thesis
  proof (cases e1)
    case (Some e)
    then have res: "err = Some e" "h' = h1" "f' = f1"
      using run lp by (simp_all add: fileStore_flushPages_def)
    have "dirty_addrs h (entries (cache f)) ks = w @ r \<and>
     distinct (w @ r) \<and>
     set (w @ r) = {a \<in> snd ` set (entries (cache f)). addr_dirty h a} \<and>
     wlog (fs_file f') = wlog (fs_file f) @ map (page_write h True) w @ x \<and>
     (\<forall>a \<in> set w. h' a = map_option btree_markClean (h a)) \<and>
     (\<forall>a. a \<notin> set w \<longrightarrow> h' a = h a) \<and>
     (\<forall>a \<in> set r. addr_dirty h' a) \<and>
     (r = [] \<longrightarrow> x = [(0, header_bytes f, err = None)]) \<and>
     (r \<noteq> [] \<longrightarrow> err \<noteq> None \<and> (x = [] \<or> x = [page_write h False (hd r)])) \<and>
     (err = None \<longrightarrow> r = [])"
      using wr dist st lg cl un rd en Some res by simp
    then show ?thesis by blast
  next
    case None
    obtain e2 fl2 where w2: "file_WriteAt (fs_file f1) (header_bytes f1) 0 = (e2, fl2)"
      by (cases "file_WriteAt (fs_file f1) (header_bytes f1) 0")
    have res: "err = e2" "h' = h1" "f' = f1\<lparr>fs_file := fl2\<rparr>"
      using run lp None w2 by (simp_all add: fileStore_flushPages_def fileStore_save_def)
    have r0: "r = []" and x0: "x = []" using e0 None by simp_all
    have lg2: "wlog (fs_file f') =
        wlog (fs_file f) @ map (page_write h True) w @ [(0, header_bytes f, err = None)]"
      using file_WriteAt_log [OF w2] lg hd res x0 by simp
    have "dirty_addrs h (entries (cache f)) ks = w @ [] \<and>
     distinct (w @ []) \<and>
     set (w @ []) = {a \<in> snd ` set (entries (cache f)). addr_dirty h a} \<and>
     wlog (fs_file f') =
       wlog (fs_file f) @ map (page_write h True) w @ [(0, header_bytes f, err = None)] \<and>
     (\<forall>a \<in> set w. h' a = map_option btree_markClean (h a)) \<and>
     (\<forall>a. a \<notin> set w \<longrightarrow> h' a = h a) \<and>
     (\<forall>a \<in> set []. addr_dirty h' a) \<and>
     ([] = [] \<longrightarrow> [(0, header_bytes f, err = None)] = [(0, header_bytes f, err = None)]) \<and>
     ([] \<noteq> [] \<longrightarrow> err \<noteq> None \<and>
        ([(0, header_bytes f, err = None)] = [] \<or>
         [(0, header_bytes f, err = None)] = [page_write h False (hd [])])) \<and>
     (err = None \<longrightarrow> [] = [])"
      using wr dist st lg2 cl un res r0 by simp
    then show ?thesis by blast
  qed
qed

lemma heap_ex_leaf_encode:
  "\<exists>buf. leafNode_encode (markDirty 1 (leaf_ex\<lparr>fileOffset := 4096\<rparr>)) = Inr buf"
proof -
  have "\<exists>buf. leafNode_encode (markDirty 1 (leaf_ex\<lparr>fileOffset := 4096\<rparr>)) = Inr buf \<and>
      length buf = pageSize"
    by (rule leafNode_encode_length)
      (simp_all add: markDirty_def leaf_ex_def empty_leafNode_def slots_ok_def slot_cells_def
        maxLeafNodeCells_def pageSize_def leafNodeHeaderSize_def offsetElemSize_def
        leafNodeCellSize_def maxValueSize_def)
  then show ?thesis by auto
qed

lemma heap_ex_simps:
  "heap_ex 0 = Some (Leaf (markDirty 1 (leaf_ex\<lparr>fileOffset := 4096\<rparr>)))"
  "heap_ex 1 = Some (Internal (internal_ex\<lparr>fileOffset := 8192\<rparr>))"
  "heap_ex (Suc 0) = Some (Internal (internal_ex\<lparr>fileOffset := 8192\<rparr>))"
  by (simp_all add: heap_ex_def)

lemma store_flush_ex_ok:
  "cache_ok heap_ex (entries (cache store_flush_ex))"
  "distinct [4096, 8192 :: u64]"
  "set [4096, 8192 :: u64] = fst ` set (entries (cache store_flush_ex))"
  by (auto simp: cache_ok_def store_flush_ex_def heap_ex_simps markDirty_def)

lemma store_flush_ex_run:
  "\<exists>h' f'. fileStore_flushPages heap_ex store_flush_ex [4096, 8192] = (None, h', f')"
proof -
  obtain buf where b: "leafNode_encode (markDirty 1 (leaf_ex\<lparr>fileOffset := 4096\<rparr>)) = Inr buf"
    using heap_ex_leaf_encode by blast
  have fo: "btree_getFileOffset (Leaf (markDirty 1 (leaf_ex\<lparr>fileOffset := 4096\<rparr>))) = 4096"
    by (simp add: markDirty_def)
  have d0: "btree_isDirty (Leaf (markDirty 1 (leaf_ex\<lparr>fileOffset := 4096\<rparr>)))"
    by (simp add: markDirty_def isDirty_def)
  have d1: "\<not> btree_isDirty (Internal (internal_ex\<lparr>fileOffset := 8192\<rparr>))"
    by (simp add: isDirty_def internal_ex_def empty_internalNode_def)
  have u: "fileStore_update heap_ex store_flush_ex 0 =
      (None, store_flush_ex\<lparr>fs_file := \<lparr>fdata = pwrite 4096 buf [], fpos = 0, faults = [],
                                          wlog = [(4096, buf, True)]\<rparr>,
                              cache := \<lparr>capacity = 10000, entries = [(4096, 0), (8192, 1)]\<rparr>\<rparr>)"
  proof -
    have fo': "fileOffset (markDirty 1 (leaf_ex\<lparr>fileOffset := 4096\<rparr>)) = 4096"
      by (simp add: markDirty_def)
    have w: "file_WriteAt (fs_file store_flush_ex) buf 4096 =
        (None, \<lparr>fdata = pwrite 4096 buf [], fpos = 0, faults = [], wlog = [(4096, buf, True)]\<rparr>)"
      by (simp add: file_WriteAt_def store_flush_ex_def store_ex_def newFileStore_def)
    have c: "setCache heap_ex
        (store_flush_ex\<lparr>fs_file := \<lparr>fdata = pwrite 4096 buf [], fpos = 0, faults = [],
                                        wlog = [(4096, buf, True)]\<rparr>\<rparr>) 4096 0 =
        (None, store_flush_ex\<lparr>fs_file := \<lparr>fdata = pwrite 4096 buf [], fpos = 0, faults = [],
                                          wlog = [(4096, buf, True)]\<rparr>,
                              cache := \<lparr>capacity = 10000, entries = [(4096, 0), (8192, 1)]\<rparr>\<rparr>)"
      by (simp add: setCache_def lru_set_def store_flush_ex_def store_ex_def newFileStore_def)
    show ?thesis
      unfolding fileStore_update_def heap_ex_simps
      by (simp add: b fo' w c)
  qed
  define f1 where "f1 = store_flush_ex\<lparr>fs_file := \<lparr>fdata = pwrite 4096 buf [], fpos = 0,
                                          faults = [], wlog = [(4096, buf, True)]\<rparr>,
                              cache := \<lparr>capacity = 10000, entries = [(4096, 0), (8192, 1)]\<rparr>\<rparr>"
  define h1 where "h1 = heap_ex(0 \<mapsto>
      btree_markClean (Leaf (markDirty 1 (leaf_ex\<lparr>fileOffset := 4096\<rparr>))))"
  have l2: "flush_loop h1 f1 [8192] = (None, h1, f1)"
  proof -
    have "map_of (entries (cache f1)) 8192 = Some 1" by (simp add: f1_def)
    moreover have "h1 1 = Some (Internal (internal_ex\<lparr>fileOffset := 8192\<rparr>))"
      by (simp add: h1_def heap_ex_simps)
    ultimately show ?thesis using d1 by simp
  qed
  have step: "flush_loop heap_ex store_flush_ex (4096 # ks) = flush_loop h1 f1 ks" for ks
  proof -
    have "map_of (entries (cache store_flush_ex)) 4096 = Some 0"
      by (simp add: store_flush_ex_def)
    then show ?thesis
      using d0 u by (simp add: heap_ex_simps f1_def h1_def)
  qed
  have l1: "flush_loop heap_ex store_flush_ex [4096, 8192] = (None, h1, f1)"
    by (simp only: step l2)
  have sv: "fst (fileStore_save f1) = None"
    by (simp add: fileStore_save_def file_WriteAt_def f1_def split_def)
  show ?thesis
    unfolding fileStore_flushPages_def l1
    using sv by (simp add: split_def)
qed

theorem flushPages_contract_witness:
  "\<exists>h' f'. fileStore_flushPages heap_ex store_flush_ex [4096, 8192] = (None, h', f') \<and>
     wlog (fs_file f') = [page_write heap_ex True 0, (0, header_bytes store_flush_ex, True)] \<and>
     h' 0 = map_option btree_markClean (heap_ex 0) \<and> h' 1 = heap_ex 1"
proof -
  obtain h' f' where run: "fileStore_flushPages heap_ex store_flush_ex [4096, 8192] = (None, h', f')"
    using store_flush_ex_run by blast
  obtain written rest extra where
    wr: "dirty_addrs heap_ex (entries (cache store_flush_ex)) [4096, 8192] = written @ rest"
    and lg: "wlog (fs_file f') =
        wlog (fs_file store_flush_ex) @ map (page_write heap_ex True) written @ extra"
    and cl: "\<forall>a \<in> set written. h' a = map_option btree_markClean (heap_ex a)"
    and un: "\<forall>a. a \<notin> set written \<longrightarrow> h' a = heap_ex a"
    and hd: "rest = [] \<longrightarrow> extra = [(0, header_bytes store_flush_ex, None = (None :: error option))]"
    and r0: "(None :: error option) = None \<longrightarrow> rest = []"
    using flushPages_contract [OF store_flush_ex_ok run] by blast
  have da: "dirty_addrs heap_ex (entries (cache store_flush_ex)) [4096, 8192] = [0]"
    by (simp add: store_flush_ex_def entry_dirty_def heap_ex_simps markDirty_def isDirty_def
        internal_ex_def empty_internalNode_def)
  have rest: "rest = []" using r0 by simp
  then have written: "written = [0]" using wr da by simp
  have extra: "extra = [(0, header_bytes store_flush_ex, True)]" using hd rest by simp
  have l0: "wlog (fs_file store_flush_ex) = []"
    by (simp add: store_flush_ex_def store_ex_def newFileStore_def)
  have "wlog (fs_file f') = [page_write heap_ex True 0, (0, header_bytes store_flush_ex, True)]"
    using lg by (simp add: written extra l0)
  moreover have "h' 0 = map_option btree_markClean (heap_ex 0)" using cl written by simp
  moreover have "h' 1 = heap_ex 1" using un written by simp
  ultimately show ?thesis using run by blast
qed

text \<open>
  The same flush on a file whose first write fails: the page write is attempted and fails,
  no header is written, and the heap, with the dirty bit of the node, is as before.
\<close>

lemma flushPages_failed_write_example:
  "\<exists>f'. fileStore_flushPages heap_ex store_flush_fail [4096, 8192] = (Some ErrIO, heap_ex, f') \<and>
     wlog (fs_file f') = [page_write heap_ex False 0]"
proof -
  obtain buf where b: "leafNode_encode (markDirty 1 (leaf_ex\<lparr>fileOffset := 4096\<rparr>)) = Inr buf"
    using heap_ex_leaf_encode by blast
  have fo': "fileOffset (markDirty 1 (leaf_ex\<lparr>fileOffset := 4096\<rparr>)) = 4096"
    by (simp add: markDirty_def)
  have d0: "btree_isDirty (Leaf (markDirty 1 (leaf_ex\<lparr>fileOffset := 4096\<rparr>)))"
    by (simp add: markDirty_def isDirty_def)
  define fl where "fl = \<lparr>fdata = [], fpos = 0, faults = [], wlog = [(4096, buf, False)]\<rparr>"
  define f1 where "f1 = store_flush_fail\<lparr>fs_file := fl,
      cache := \<lparr>capacity = 10000, entries = [(4096, 0), (8192, 1)]\<rparr>\<rparr>"
  have w: "file_WriteAt (fs_file store_flush_fail) buf 4096 = (Some ErrIO, fl)"
    by (simp add: file_WriteAt_def store_flush_fail_def fl_def)
  have c: "setCache heap_ex (store_flush_fail\<lparr>fs_file := fl\<rparr>) 4096 0 = (None, f1)"
    by (simp add: setCache_def lru_set_def store_flush_fail_def store_flush_ex_def store_ex_def
        newFileStore_def f1_def)
  have u: "fileStore_update heap_ex store_flush_fail 0 = (Some ErrIO, f1)"
    unfolding fileStore_update_def heap_ex_simps by (simp add: b fo' w c)
  have m: "map_of (entries (cache store_flush_fail)) 4096 = Some 0"
    by (simp add: store_flush_fail_def store_flush_ex_def)
  have "flush_loop heap_ex store_flush_fail (4096 # ks) = (Some ErrIO, heap_ex, f1)" for ks
    using m d0 u by (simp add: heap_ex_simps)
  then have "fileStore_flushPages heap_ex store_flush_fail [4096, 8192] =
      (Some ErrIO, heap_ex, f1)"
    by (simp add: fileStore_flushPages_def)
  moreover have "wlog (fs_file f1) = [page_write heap_ex False 0]"
    by (simp add: f1_def fl_def page_write_def heap_ex_simps b fo')
  ultimately show ?thesis by blast
qed

end
